theory Spec2Isabelle
  imports Complex_Main "HOL-Library.Word"
begin

section \<open>Strings\<close>

text \<open>
  A JavaScript string is a sequence of UTF-16 code units and \<open>.length\<close> counts code
  units, so a string is a list of 16-bit words. \<open>ascii\<close> writes an ASCII literal as such
  a string.
\<close>

type_synonym jsstring = "16 word list"

definition ascii :: "string \<Rightarrow> jsstring" where
  "ascii cs = map (\<lambda>c. of_nat (of_char c)) cs"

definition AT :: "16 word" where
  "AT = 0x40"

definition BACKTICK :: "16 word" where
  "BACKTICK = 0x60"

definition ZWSP :: "16 word" where
  \<comment> \<open>the code unit the source writes as the escape u200B: U+200B ZERO WIDTH SPACE\<close>
  "ZWSP = 0x200B"

definition ZWJ :: "16 word" where
  \<comment> \<open>U+200D ZERO WIDTH JOINER; it occurs nowhere in the source\<close>
  "ZWJ = 0x200D"

definition NEWLINE :: "16 word" where
  "NEWLINE = 0x0A"

text \<open>
  \<open>s.slice(b, e)\<close> for non-negative integers \<open>b\<close> and \<open>e\<close>: the code units from index
  \<open>b\<close> up to, not including, index \<open>e\<close>, both clamped to the length.
\<close>

definition slice_str :: "'a list \<Rightarrow> nat \<Rightarrow> nat \<Rightarrow> 'a list" where
  "slice_str s b e = drop b (take e s)"

text \<open>
  \<open>lines.join("\n")\<close>, with the separator as a parameter.
\<close>

fun join :: "'a list \<Rightarrow> 'a list list \<Rightarrow> 'a list" where
  "join sep [] = []"
| "join sep [l] = l"
| "join sep (l # m # ls) = l @ sep @ join sep (m # ls)"

text \<open>
  \<open>s.replaceAll(pat, rep)\<close> with a string pattern and a replacement that holds no
  \<open>$\<close>: the occurrences of \<open>pat\<close> are found from left to right, each search starting
  behind the previous occurrence, and each is replaced by \<open>rep\<close>. The empty pattern
  occurs before every code unit and at the end.
\<close>

function replaceFrom :: "'a list \<Rightarrow> 'a list \<Rightarrow> 'a list \<Rightarrow> 'a list" where
  "replaceFrom [] pat rep = []"
| "replaceFrom (c # cs) pat rep =
     (if pat \<noteq> [] \<and> take (length pat) (c # cs) = pat
      then rep @ replaceFrom (drop (length pat - 1) cs) pat rep
      else c # replaceFrom cs pat rep)"
  by pat_completeness auto
termination
  by (relation "measure (\<lambda>(s, pat, rep). length s)") auto

definition replaceAll :: "'a list \<Rightarrow> 'a list \<Rightarrow> 'a list \<Rightarrow> 'a list" where
  "replaceAll s pat rep =
     (if pat = [] then rep @ concat (map (\<lambda>c. c # rep) s) else replaceFrom s pat rep)"

section \<open>LineSanitizer\<close>

text \<open>
  \<^verbatim>\<open>line.replaceAll("@", "@" + Z).replaceAll("```", "`" + Z + "``")\<close>, where
  \<open>Z\<close> stands for the one code unit U+200B of the source's string literals.
\<close>

definition sanitizeLine :: "jsstring \<Rightarrow> jsstring" where
  "sanitizeLine line =
     replaceAll (replaceAll line [AT] [AT, ZWSP])
       [BACKTICK, BACKTICK, BACKTICK] [BACKTICK, ZWSP, BACKTICK, BACKTICK]"

text \<open>
  The sanitizer as the specification words it, in one pass from left to right and with
  the inserted marker \<open>z\<close> as a parameter: every \<open>@\<close> becomes \<open>@\<close> followed by the
  marker, every run of three backticks becomes backtick, marker, two backticks, and
  every other code unit is copied.
\<close>

fun sanitize_spec :: "16 word \<Rightarrow> jsstring \<Rightarrow> jsstring" where
  "sanitize_spec z [] = []"
| "sanitize_spec z (c # cs) =
     (if c = AT then AT # z # sanitize_spec z cs
      else if c = BACKTICK \<and> take 2 cs = [BACKTICK, BACKTICK]
      then BACKTICK # z # BACKTICK # BACKTICK # sanitize_spec z (drop 2 cs)
      else c # sanitize_spec z cs)"

section \<open>Chunker\<close>

text \<open>
  \<^verbatim>\<open>for (let i = 0; i < s.length; i += max) out.push(s.slice(i, i + max)); return out;\<close>
  with \<open>max\<close> a non-negative integer, as at both call sites. The loop does not end
  when \<open>max\<close> is 0 and \<open>s\<close> is not empty, so the result is an option and \<open>None\<close>
  stands for a call that never returns.
\<close>

partial_function (option) splitLoop :: "'a list \<Rightarrow> nat \<Rightarrow> nat \<Rightarrow> 'a list list \<Rightarrow> 'a list list option" where
  "splitLoop s mx i out =
     (if i < length s then splitLoop s mx (i + mx) (out @ [slice_str s i (i + mx)]) else Some out)"

declare splitLoop.simps [code]

definition splitToChunks :: "'a list \<Rightarrow> nat \<Rightarrow> 'a list list option" where
  "splitToChunks s mx = splitLoop s mx 0 []"

text \<open>
  The chunks written without the loop counter, for the proofs: cut \<open>mx\<close> code units off
  the front until nothing is left.
\<close>

function chunks_of :: "nat \<Rightarrow> 'a list \<Rightarrow> 'a list list" where
  "chunks_of mx s = (if mx = 0 \<or> s = [] then [] else take mx s # chunks_of mx (drop mx s))"
  by pat_completeness auto
termination
  by (relation "measure (\<lambda>(mx, s). length s)") auto

section \<open>BatchQueue\<close>

definition DISCORD_HARD_LIMIT :: nat where
  "DISCORD_HARD_LIMIT = 2000"

definition SAFETY_HEADROOM :: nat where
  "SAFETY_HEADROOM = 10"

definition MAX_CONTENT :: nat where
  "MAX_CONTENT = DISCORD_HARD_LIMIT - SAFETY_HEADROOM"

text \<open>
  The decimal digits of a number, as a template literal prints an integer.
\<close>

fun decimal :: "nat \<Rightarrow> jsstring" where
  "decimal n =
     (if n < 10 then [0x30 + of_nat n] else decimal (n div 10) @ [0x30 + of_nat (n mod 10)])"

text \<open>
  \<^verbatim>\<open>chunks.length > 1 ? ` [${i + 1}/${chunks.length}]` : ""\<close>, for the chunk at index
  \<open>i\<close> of \<open>n\<close> chunks.
\<close>

definition chunk_suffix :: "nat \<Rightarrow> nat \<Rightarrow> jsstring" where
  "chunk_suffix i n =
     (if n > 1 then ascii '' ['' @ decimal (i + 1) @ ascii ''/'' @ decimal n @ ascii '']''
      else [])"

text \<open>
  A call of \<open>sendPacked\<close>, tagged with its call site: \<open>Batch current\<close> is
  \<open>sendPacked(current)\<close> in \<open>flushCurrent\<close>, and \<open>Fragment c sfx\<close> is
  \<open>sendPacked([chunks[i] + suffix])\<close> in the loop over the chunks of an oversized line.
  \<open>packed\<close> is the argument \<open>lines\<close> of the call, \<open>content\<close> the string handed to
  \<open>channel.send\<close>, and \<open>text_of\<close> the text of the queued lines that the call carries.
\<close>

datatype message = Batch "jsstring list" | Fragment jsstring jsstring

fun packed :: "message \<Rightarrow> jsstring list" where
  "packed (Batch ls) = ls"
| "packed (Fragment c sfx) = [c @ sfx]"

definition content :: "message \<Rightarrow> jsstring" where
  "content m = join [NEWLINE] (packed m)"

fun text_of :: "message \<Rightarrow> jsstring" where
  "text_of (Batch ls) = concat ls"
| "text_of (Fragment c sfx) = c"

text \<open>
  The module's state, as far as the queue uses it: whether \<open>channel\<close> is set, the
  \<open>queue\<close>, whether \<open>flushTimer\<close> is set, and the Messenger seen from outside:
  \<open>outbox\<close> holds every message handed to \<open>channel.send\<close>, in order, and \<open>delivered\<close>
  those whose send did not fail. Whether a send fails is the world's choice: \<open>ok k\<close> says
  that the send number \<open>k\<close> (counted from 0 over the life of the process) succeeds.
\<close>

record bot =
  channel :: bool
  queue :: "jsstring list"
  flushTimer :: bool
  outbox :: "message list"
  delivered :: "message list"

definition startFlushTimer :: "bot \<Rightarrow> bot" where
  "startFlushTimer s = (if flushTimer s then s else s\<lparr>flushTimer := True\<rparr>)"

definition enqueue :: "jsstring \<Rightarrow> bot \<Rightarrow> bot" where
  "enqueue line s = startFlushTimer (s\<lparr>queue := queue s @ [sanitizeLine line]\<rparr>)"

text \<open>
  \<open>sendPacked\<close> returns at once on no lines; a failed send is caught and logged, and
  changes nothing else.
\<close>

definition sendPacked :: "(nat \<Rightarrow> bool) \<Rightarrow> message \<Rightarrow> bot \<Rightarrow> bot" where
  "sendPacked ok m s =
     (if packed m = [] then s
      else s\<lparr>outbox := outbox s @ [m],
             delivered := (if ok (length (outbox s)) then delivered s @ [m] else delivered s)\<rparr>)"

text \<open>
  The locals \<open>current\<close> and \<open>currentLen\<close> of \<open>flushQueue\<close> travel with the state as a
  triple.
\<close>

type_synonym flush_state = "jsstring list \<times> nat \<times> bot"

definition flushCurrent :: "(nat \<Rightarrow> bool) \<Rightarrow> flush_state \<Rightarrow> flush_state" where
  "flushCurrent ok = (\<lambda>(current, currentLen, s).
     ([], 0, if current \<noteq> [] then sendPacked ok (Batch current) s else s))"

text \<open>
  \<^verbatim>\<open>for (let i = 0; i < chunks.length; i++) { ... await sendPacked([chunks[i] + suffix]); }\<close>
\<close>

definition sendChunks :: "(nat \<Rightarrow> bool) \<Rightarrow> jsstring list \<Rightarrow> bot \<Rightarrow> bot" where
  "sendChunks ok chunks s =
     fold (\<lambda>i. sendPacked ok (Fragment (chunks ! i) (chunk_suffix i (length chunks))))
       [0..<length chunks] s"

text \<open>
  The \<open>while (queue.length > 0)\<close> loop. Its first argument is the queue, which each
  round shifts; \<open>mx\<close> is \<open>MAX_LINES_PER_BATCH\<close>, any finite number the environment
  gives. A queue of strings never yields \<open>null\<close>, so the \<open>raw == null\<close> test has no
  branch here. The loop runs without another \<open>enqueue\<close> or \<open>flushQueue\<close> in between.
\<close>

fun drain :: "real \<Rightarrow> (nat \<Rightarrow> bool) \<Rightarrow> jsstring list \<Rightarrow> flush_state \<Rightarrow> flush_state option" where
  "drain mx ok [] st = Some st"
| "drain mx ok (raw # q) (current, currentLen, s0) =
     (let s = s0\<lparr>queue := q\<rparr> in
      if length raw > MAX_CONTENT then
        (case splitToChunks raw MAX_CONTENT of
           None \<Rightarrow> None
         | Some chunks \<Rightarrow>
             (let (current1, currentLen1, s1) =
                    (if current \<noteq> [] then flushCurrent ok (current, currentLen, s)
                     else (current, currentLen, s))
              in drain mx ok q (current1, currentLen1, sendChunks ok chunks s1)))
      else
        (let addLen = (if current = [] then 0 else 1) + length raw;
             wouldOverflowChars = (currentLen + addLen > MAX_CONTENT);
             wouldOverflowLines = (real (length current + 1) > mx);
             (current1, currentLen1, s1) =
               (if wouldOverflowChars \<or> wouldOverflowLines
                then flushCurrent ok (current, currentLen, s)
                else (current, currentLen, s))
         in drain mx ok q (current1 @ [raw], currentLen1 + addLen, s1)))"

definition stopFlushTimer :: "bool \<Rightarrow> bot \<Rightarrow> bot" where
  \<comment> \<open>\<open>if (force && flushTimer) { clearInterval(flushTimer); flushTimer = null; }\<close>\<close>
  "stopFlushTimer force s = (if force \<and> flushTimer s then s\<lparr>flushTimer := False\<rparr> else s)"

definition flushQueue :: "real \<Rightarrow> (nat \<Rightarrow> bool) \<Rightarrow> bool \<Rightarrow> bot \<Rightarrow> bot option" where
  "flushQueue mx ok force s =
     (if \<not> channel s \<or> queue s = [] then Some (stopFlushTimer force s)
      else
        (case drain mx ok (queue s) ([], 0, s) of
           None \<Rightarrow> None
         | Some st \<Rightarrow> (case flushCurrent ok st of (current, currentLen, s1) \<Rightarrow>
             Some (stopFlushTimer force s1))))"

text \<open>
  What one call of \<open>flushQueue\<close> hands to \<open>channel.send\<close>: the messages it appends to
  the outbox.
\<close>

definition emits :: "real \<Rightarrow> (nat \<Rightarrow> bool) \<Rightarrow> bool \<Rightarrow> bot \<Rightarrow> message list option" where
  "emits mx ok force s =
     map_option (\<lambda>s'. drop (length (outbox s)) (outbox s')) (flushQueue mx ok force s)"

text \<open>
  The state right after start: the channel resolved, nothing queued, no timer.
\<close>

definition ready :: bot where
  "ready = \<lparr>channel = True, queue = [], flushTimer = False, outbox = [], delivered = []\<rparr>"

subsection \<open>The messages of a flush, as a list\<close>

text \<open>
  For the proofs, the messages that the loop and the last \<open>flushCurrent\<close> send, computed
  without the state: \<open>fragments\<close> for the chunks of one oversized line, \<open>emitted\<close> for
  a queue met with the locals \<open>current\<close> and \<open>currentLen\<close>. \<open>grows ok s ms s'\<close> says
  that \<open>s'\<close> is \<open>s\<close> after sending \<open>ms\<close>.
\<close>

definition fragments :: "jsstring list \<Rightarrow> message list" where
  "fragments chunks =
     map (\<lambda>i. Fragment (chunks ! i) (chunk_suffix i (length chunks))) [0..<length chunks]"

fun emitted :: "real \<Rightarrow> jsstring list \<Rightarrow> jsstring list \<Rightarrow> nat \<Rightarrow> message list" where
  "emitted mx [] current currentLen = (if current \<noteq> [] then [Batch current] else [])"
| "emitted mx (raw # q) current currentLen =
     (if length raw > MAX_CONTENT then
        (if current \<noteq> [] then [Batch current] else [])
          @ fragments (chunks_of MAX_CONTENT raw)
          @ emitted mx q [] (if current \<noteq> [] then 0 else currentLen)
      else if currentLen + ((if current = [] then 0 else 1) + length raw) > MAX_CONTENT
              \<or> real (length current + 1) > mx
      then (if current \<noteq> [] then [Batch current] else [])
             @ emitted mx q [raw] ((if current = [] then 0 else 1) + length raw)
      else emitted mx q (current @ [raw])
             (currentLen + ((if current = [] then 0 else 1) + length raw)))"

definition grows :: "(nat \<Rightarrow> bool) \<Rightarrow> bot \<Rightarrow> message list \<Rightarrow> bot \<Rightarrow> bool" where
  "grows ok s ms s' \<longleftrightarrow>
     outbox s' = outbox s @ ms \<and> channel s' = channel s \<and> flushTimer s' = flushTimer s
     \<and> queue s' = queue s
     \<and> ((\<forall>k. ok k) \<longrightarrow> delivered s' = delivered s @ ms)"

section \<open>Overlapping calls of flushQueue\<close>

text \<open>
  \<open>flushQueue\<close> is an async function. Where it awaits \<open>channel.send\<close> it gives the
  thread away, and until the send settles a timer tick (or the close handler, or
  \<open>shutdown\<close>) may call \<open>flushQueue\<close> again and the output handlers may call
  \<open>enqueue\<close>. An \<open>await\<close> that waits for no send (a \<open>flushCurrent\<close> with nothing to
  send) lets no timer or I/O callback in, so the call runs on there. A call that waits
  keeps its locals and the place where it goes on:
  \<^item> \<open>AfterOverflow raw addLen\<close>: in \<open>flushCurrent\<close>, called because \<open>raw\<close> would
    overflow the batch; \<open>raw\<close> is shifted off the queue and not yet pushed;
  \<^item> \<open>AfterPreflush chunks\<close>: in \<open>flushCurrent\<close>, called before the chunks of an
    oversized line are sent;
  \<^item> \<open>AfterChunk chunks i\<close>: in \<open>sendPacked\<close> for the chunk at index \<open>i\<close>;
  \<^item> \<open>AfterFinal\<close>: in the \<open>flushCurrent\<close> after the loop.
  The outbox lists the messages in the order in which \<open>channel.send\<close> is called.
\<close>

datatype cont =
  AfterOverflow jsstring nat
  | AfterPreflush "jsstring list"
  | AfterChunk "jsstring list" nat
  | AfterFinal

record call =
  c_force :: bool
  c_current :: "jsstring list"
  c_currentLen :: nat
  c_cont :: cont

text \<open>
  The loop of \<open>flushQueue\<close> from its head, with the locals \<open>cur\<close> and \<open>len\<close>, up to
  the next awaited send (the call then waits) or to the end of the function.
\<close>

function run_loop :: "real \<Rightarrow> (nat \<Rightarrow> bool) \<Rightarrow> bool \<Rightarrow> jsstring list \<Rightarrow> nat \<Rightarrow> bot \<Rightarrow> (call option \<times> bot) option" where
  "run_loop mx ok frc cur len s =
     (case queue s of
        [] \<Rightarrow>
          (if cur \<noteq> []
           then Some (Some \<lparr>c_force = frc, c_current = cur, c_currentLen = len, c_cont = AfterFinal\<rparr>,
                      sendPacked ok (Batch cur) s)
           else Some (None, stopFlushTimer frc s))
      | raw # q \<Rightarrow>
          (if length raw > MAX_CONTENT then
             (case splitToChunks raw MAX_CONTENT of
                None \<Rightarrow> None
              | Some chunks \<Rightarrow>
                  (if cur \<noteq> []
                   then Some (Some \<lparr>c_force = frc, c_current = cur, c_currentLen = len,
                                    c_cont = AfterPreflush chunks\<rparr>,
                              sendPacked ok (Batch cur) (s\<lparr>queue := q\<rparr>))
                   else if 0 < length chunks
                   then Some (Some \<lparr>c_force = frc, c_current = cur, c_currentLen = len,
                                    c_cont = AfterChunk chunks 0\<rparr>,
                              sendPacked ok (Fragment (chunks ! 0) (chunk_suffix 0 (length chunks)))
                                (s\<lparr>queue := q\<rparr>))
                   else run_loop mx ok frc cur len (s\<lparr>queue := q\<rparr>)))
           else
             (let addLen = (if cur = [] then 0 else 1) + length raw;
                  wouldOverflowChars = (len + addLen > MAX_CONTENT);
                  wouldOverflowLines = (real (length cur + 1) > mx)
              in if wouldOverflowChars \<or> wouldOverflowLines
                 then (if cur \<noteq> []
                       then Some (Some \<lparr>c_force = frc, c_current = cur, c_currentLen = len,
                                        c_cont = AfterOverflow raw addLen\<rparr>,
                                  sendPacked ok (Batch cur) (s\<lparr>queue := q\<rparr>))
                       else run_loop mx ok frc [raw] addLen (s\<lparr>queue := q\<rparr>))
                 else run_loop mx ok frc (cur @ [raw]) (len + addLen) (s\<lparr>queue := q\<rparr>))))"
  by pat_completeness auto
termination
  by (relation "measure (\<lambda>(mx, ok, frc, cur, len, s). length (queue s))") auto

declare run_loop.simps [simp del]

text \<open>
  A waiting call goes on once its send has settled.
\<close>

definition resume_call :: "real \<Rightarrow> (nat \<Rightarrow> bool) \<Rightarrow> call \<Rightarrow> bot \<Rightarrow> (call option \<times> bot) option" where
  "resume_call mx ok c s =
     (case c_cont c of
        AfterOverflow raw addLen \<Rightarrow> run_loop mx ok (c_force c) [raw] addLen s
      | AfterPreflush chunks \<Rightarrow>
          (if 0 < length chunks
           then Some (Some (c\<lparr>c_current := [], c_currentLen := 0, c_cont := AfterChunk chunks 0\<rparr>),
                      sendPacked ok (Fragment (chunks ! 0) (chunk_suffix 0 (length chunks))) s)
           else run_loop mx ok (c_force c) [] 0 s)
      | AfterChunk chunks i \<Rightarrow>
          (if i + 1 < length chunks
           then Some (Some (c\<lparr>c_cont := AfterChunk chunks (i + 1)\<rparr>),
                      sendPacked ok (Fragment (chunks ! (i + 1)) (chunk_suffix (i + 1) (length chunks))) s)
           else run_loop mx ok (c_force c) (c_current c) (c_currentLen c) s)
      | AfterFinal \<Rightarrow> Some (None, stopFlushTimer (c_force c) s))"

text \<open>
  What happens, one after the other: \<open>enqueue(line)\<close>, a call \<open>flushQueue(force)\<close>, or
  the send of the waiting call number \<open>i\<close> settling. The state is the module's state
  with the calls that wait.
\<close>

datatype async_event = Enq jsstring | Tick bool | Done nat

definition step_async ::
  "real \<Rightarrow> (nat \<Rightarrow> bool) \<Rightarrow> async_event \<Rightarrow> bot \<times> call list \<Rightarrow> (bot \<times> call list) option" where
  "step_async mx ok ev = (\<lambda>(s, cs).
     (case ev of
        Enq line \<Rightarrow> Some (enqueue line s, cs)
      | Tick frc \<Rightarrow>
          (if \<not> channel s \<or> queue s = [] then Some (stopFlushTimer frc s, cs)
           else
             (case run_loop mx ok frc [] 0 s of
                None \<Rightarrow> None
              | Some (None, s') \<Rightarrow> Some (s', cs)
              | Some (Some c, s') \<Rightarrow> Some (s', cs @ [c])))
      | Done i \<Rightarrow>
          (if i < length cs then
             (case resume_call mx ok (cs ! i) s of
                None \<Rightarrow> None
              | Some (None, s') \<Rightarrow> Some (s', take i cs @ drop (i + 1) cs)
              | Some (Some c, s') \<Rightarrow> Some (s', cs[i := c]))
           else Some (s, cs))))"

fun run_async ::
  "real \<Rightarrow> (nat \<Rightarrow> bool) \<Rightarrow> async_event list \<Rightarrow> bot \<times> call list \<Rightarrow> (bot \<times> call list) option" where
  "run_async mx ok [] st = Some st"
| "run_async mx ok (ev # evs) st =
     (case step_async mx ok ev st of None \<Rightarrow> None | Some st' \<Rightarrow> run_async mx ok evs st')"

text \<open>
  One call carried to its end with nothing else in between.
\<close>

partial_function (option) finish :: "real \<Rightarrow> (nat \<Rightarrow> bool) \<Rightarrow> call option \<times> bot \<Rightarrow> bot option" where
  "finish mx ok r =
     (case r of
        (None, s) \<Rightarrow> Some s
      | (Some c, s) \<Rightarrow> Option.bind (resume_call mx ok c s) (finish mx ok))"


section \<open>RconManager\<close>

text \<open>
  The manager's fields, with the transport (the \<open>Rcon\<close> object) as a handle. The world
  answers the two awaited calls: \<open>conn\<close> is the outcome of \<open>Rcon.connect\<close>, should the
  call be made, and \<open>exec t cmd\<close> the outcome of \<open>send(cmd)\<close> on the transport \<open>t\<close>.
  Each function returns its result, the manager after it, and the calls it made on the
  transport layer, in order. No other call runs during the awaits, so the state read
  again after the 250 ms wait in \<open>ensureConnected\<close> is the state read before it.
\<close>

type_synonym transport = nat

datatype error = RconDisabled | RconNotConnected | TransportError nat

datatype action = Connect | Exec transport jsstring

record rcon_manager =
  rcon :: "transport option"
  connected :: bool
  connecting :: bool

definition ensureConnected ::
  "bool \<Rightarrow> error + transport \<Rightarrow> rcon_manager \<Rightarrow> (error + unit) \<times> rcon_manager \<times> action list" where
  "ensureConnected RCON_ENABLED conn m =
     (if \<not> RCON_ENABLED then (Inl RconDisabled, m, [])
      else if connected m \<and> rcon m \<noteq> None then (Inr (), m, [])
      else if connecting m \<and> connected m \<and> rcon m \<noteq> None then (Inr (), m, [])
      else
        (case conn of
           Inr t \<Rightarrow> (Inr (), m\<lparr>rcon := Some t, connected := True, connecting := False\<rparr>, [Connect])
         | Inl e \<Rightarrow> (Inl e, m\<lparr>connecting := False\<rparr>, [Connect])))"

definition rcon_send ::
  "bool \<Rightarrow> error + transport \<Rightarrow> (transport \<Rightarrow> jsstring \<Rightarrow> error + jsstring) \<Rightarrow> jsstring
     \<Rightarrow> rcon_manager \<Rightarrow> (error + jsstring) \<times> rcon_manager \<times> action list" where
  "rcon_send RCON_ENABLED conn exec command m =
     (case ensureConnected RCON_ENABLED conn m of
        (Inl e, m1, acts) \<Rightarrow> (Inl e, m1, acts)
      | (Inr u, m1, acts) \<Rightarrow>
          (case rcon m1 of
             None \<Rightarrow> (Inl RconNotConnected, m1, acts)
           | Some t \<Rightarrow>
               (case exec t command of
                  Inr res \<Rightarrow> (Inr res, m1, acts @ [Exec t command])
                | Inl e \<Rightarrow> (Inl e, m1\<lparr>connected := False, rcon := None\<rparr>, acts @ [Exec t command]))))"

fun is_exec :: "action \<Rightarrow> bool" where
  "is_exec (Exec t c) = True"
| "is_exec Connect = False"

section \<open>Shutdown\<close>

text \<open>
  \<open>shutdown\<close> is an async function: it runs up to an \<open>await\<close>, and is resumed later,
  while signal handlers and other callbacks may run in between. The state holds the flag
  \<open>shuttingDown\<close>, the steps of the teardown done so far, the calls of \<open>shutdown\<close> that
  wait at an \<open>await\<close> (each by the number of that \<open>await\<close>), whether the process has
  exited, and whether the server's stdin is writable. An event is a termination signal,
  which calls \<open>shutdown\<close>, or the resumption of the waiting call number \<open>i\<close>, with the
  value of \<^verbatim>\<open>closed\<close> that the grace wait resolves to (written \<open>closed'\<close>).
\<close>

datatype step =
  Announce | WriteNoRestart | PoliteStop | GraceWait | ForceKill | ForceFlush
  | RconClose | Disconnect | Exit

datatype event = Signal | Resume nat bool

record sys =
  shuttingDown :: bool
  teardown :: "step list"
  waiting :: "nat list"
  exited :: bool
  writable :: bool

text \<open>
  The call of \<open>shutdown\<close> up to its first \<open>await\<close> (of \<open>sendEmbed\<close>).
\<close>

definition shutdown :: "sys \<Rightarrow> sys" where
  "shutdown s =
     (if shuttingDown s then s
      else s\<lparr>shuttingDown := True, teardown := teardown s @ [Announce],
             waiting := waiting s @ [0]\<rparr>)"

text \<open>
  The rest of \<open>shutdown\<close>, from the \<open>await\<close> number \<open>pc\<close> to the next one: the steps
  done, and the next \<open>await\<close> (none after \<open>process.exit\<close>).
\<close>

definition resume :: "nat \<Rightarrow> bool \<Rightarrow> bool \<Rightarrow> step list \<times> nat option" where
  "resume pc closed' w =
     (if pc = 0 then ([WriteNoRestart] @ (if w then [PoliteStop] else []) @ [GraceWait], Some 1)
      else if pc = 1 then ((if \<not> closed' then [ForceKill] else []) @ [ForceFlush], Some 2)
      else if pc = 2 then ([RconClose], Some 3)
      else if pc = 3 then ([Disconnect], Some 4)
      else ([Exit], None))"

definition handle :: "event \<Rightarrow> sys \<Rightarrow> sys" where
  "handle ev s =
     (if exited s then s
      else
        (case ev of
           Signal \<Rightarrow> shutdown s
         | Resume i closed' \<Rightarrow>
             (if i < length (waiting s) then
                (case resume (waiting s ! i) closed' (writable s) of
                   (steps, Some pc) \<Rightarrow>
                     s\<lparr>teardown := teardown s @ steps, waiting := (waiting s)[i := pc]\<rparr>
                 | (steps, None) \<Rightarrow> s\<lparr>teardown := teardown s @ steps, exited := True\<rparr>)
              else s)))"

definition boot :: "bool \<Rightarrow> sys" where
  "boot w = \<lparr>shuttingDown = False, teardown = [], waiting = [], exited = False, writable = w\<rparr>"

text \<open>
  The steps that a call waiting at the \<open>await\<close> number \<open>pc\<close> can have done.
\<close>

definition done_before :: "nat \<Rightarrow> step set" where
  "done_before pc =
     {Announce}
     \<union> (if 1 \<le> pc then {WriteNoRestart, PoliteStop, GraceWait} else {})
     \<union> (if 2 \<le> pc then {ForceKill, ForceFlush} else {})
     \<union> (if 3 \<le> pc then {RconClose} else {})
     \<union> (if 4 \<le> pc then {Disconnect} else {})"

definition shutdown_inv :: "sys \<Rightarrow> bool" where
  "shutdown_inv s \<longleftrightarrow>
     distinct (teardown s)
     \<and> (exited s
        \<or> (\<not> shuttingDown s \<and> teardown s = [] \<and> waiting s = [])
        \<or> (shuttingDown s \<and> (\<exists>pc \<le> 4. waiting s = [pc] \<and> set (teardown s) \<subseteq> done_before pc)))"

section \<open>Proofs: the LineSanitizer\<close>

lemma pass1: "replaceFrom s [AT] [AT, z] = concat (map (\<lambda>c. if c = AT then [AT, z] else [c]) s)"
  by (induction s) auto

lemma take2_pass1:
  "take 2 (replaceFrom cs [AT] [AT, z]) = [BACKTICK, BACKTICK] \<longleftrightarrow> take 2 cs = [BACKTICK, BACKTICK]"
proof (cases cs)
  case Nil
  then show ?thesis by simp
next
  case (Cons a as)
  then show ?thesis
    by (cases as) (simp_all add: AT_def BACKTICK_def)
qed

lemma take2_cases: "take 2 cs = [a, b] \<Longrightarrow> \<exists>r. cs = a # b # r"
proof (cases cs)
  case Nil
  assume "take 2 cs = [a, b]"
  with Nil show ?thesis by simp
next
  case (Cons x xs)
  assume "take 2 cs = [a, b]"
  with Cons show ?thesis by (cases xs) (simp_all add: numeral_2_eq_2)
qed

lemma two_pass:
  "replaceFrom (replaceFrom s [AT] [AT, ZWSP]) [BACKTICK, BACKTICK, BACKTICK] [BACKTICK, ZWSP, BACKTICK, BACKTICK]
    = sanitize_spec ZWSP s"
proof (induction ZWSP s rule: sanitize_spec.induct)
  case 1
  then show ?case by simp
next
  case (2 c cs)
  show ?case
  proof (cases "c = AT")
    case True
    with 2 show ?thesis by (simp add: AT_def BACKTICK_def ZWSP_def)
  next
    case nat: False
    show ?thesis
    proof (cases "c = BACKTICK \<and> take 2 cs = [BACKTICK, BACKTICK]")
      case True
      then have "take 2 cs = [BACKTICK, BACKTICK]" by simp
      from take2_cases [OF this] obtain r where cs: "cs = BACKTICK # BACKTICK # r" by blast
      with 2 nat True show ?thesis by (simp add: AT_def BACKTICK_def)
    next
      case False
      with 2 nat take2_pass1 [of cs ZWSP] show ?thesis
        by (auto simp add: numeral_3_eq_3 numeral_2_eq_2)
    qed
  qed
qed

lemma filter_sanitize_spec:
  "z \<noteq> AT \<Longrightarrow> z \<noteq> BACKTICK \<Longrightarrow> filter (\<lambda>c. c \<noteq> z) (sanitize_spec z s) = filter (\<lambda>c. c \<noteq> z) s"
proof (induction z s rule: sanitize_spec.induct)
  case (1 z)
  then show ?case by simp
next
  case (2 z c cs)
  show ?case
  proof (cases "c \<noteq> AT \<and> c = BACKTICK \<and> take 2 cs = [BACKTICK, BACKTICK]")
    case True
    then have "take 2 cs = [BACKTICK, BACKTICK]" by simp
    from take2_cases [OF this] obtain r where cs: "cs = BACKTICK # BACKTICK # r" by blast
    with 2 True show ?thesis by simp
  next
    case False
    with 2 show ?thesis by auto
  qed
qed

text \<open>
  Claim C5, as amended. \<open>sanitizeLine\<close> is a total function of its argument alone; it
  replaces every \<open>@\<close> by \<open>@\<close> followed by the zero-width space U+200B, and every run of
  three backticks, found from left to right without overlap, by backtick, U+200B, two
  backticks: it is the one-pass function \<open>sanitize_spec\<close> with the marker U+200B. Every
  other code unit stays as it is: with the markers taken out, the result is the argument.
\<close>

theorem sanitizeLine_spec:
  "sanitizeLine s = sanitize_spec ZWSP s
   \<and> filter (\<lambda>c. c \<noteq> ZWSP) (sanitizeLine s) = filter (\<lambda>c. c \<noteq> ZWSP) s"
proof -
  have "sanitizeLine s = sanitize_spec ZWSP s"
    by (simp add: sanitizeLine_def replaceAll_def two_pass)
  moreover have "ZWSP \<noteq> AT" "ZWSP \<noteq> BACKTICK"
    by (simp_all add: ZWSP_def AT_def BACKTICK_def)
  ultimately show ?thesis
    by (simp add: filter_sanitize_spec)
qed

lemma sanitizeLine_example:
  "sanitizeLine (ascii ''hi @everyone ```rm -rf```'')
     = ascii ''hi @'' @ [ZWSP] @ ascii ''everyone `'' @ [ZWSP] @ ascii ''``rm -rf`'' @ [ZWSP] @ ascii ''``''"
  by (simp add: sanitizeLine_def replaceAll_def ascii_def AT_def BACKTICK_def ZWSP_def)

lemma filter_example:
  "filter (\<lambda>c. c \<noteq> ZWSP) (ascii ''hi @everyone ```rm -rf```'') = ascii ''hi @everyone ```rm -rf```''"
  by (simp add: ascii_def ZWSP_def)

text \<open>
  C5 at the line \<^verbatim>\<open>hi @everyone ```rm -rf```\<close>.
\<close>

theorem sanitizeLine_spec_witness:
  "sanitizeLine (ascii ''hi @everyone ```rm -rf```'')
     = ascii ''hi @'' @ [ZWSP] @ ascii ''everyone `'' @ [ZWSP] @ ascii ''``rm -rf`'' @ [ZWSP] @ ascii ''``''
   \<and> filter (\<lambda>c. c \<noteq> ZWSP) (sanitizeLine (ascii ''hi @everyone ```rm -rf```''))
       = ascii ''hi @everyone ```rm -rf```''"
proof -
  from sanitizeLine_spec [of "ascii ''hi @everyone ```rm -rf```''"]
  have "filter (\<lambda>c. c \<noteq> ZWSP) (sanitizeLine (ascii ''hi @everyone ```rm -rf```''))
      = filter (\<lambda>c. c \<noteq> ZWSP) (ascii ''hi @everyone ```rm -rf```'')"
    by (rule conjunct2)
  then have "filter (\<lambda>c. c \<noteq> ZWSP) (sanitizeLine (ascii ''hi @everyone ```rm -rf```''))
      = ascii ''hi @everyone ```rm -rf```''"
    by (simp only: filter_example)
  with sanitizeLine_example show ?thesis by (rule conjI)
qed

text \<open>
  C5 as first stated names the inserted code unit the zero-width joiner, which is U+200D.
  The source inserts U+200B, so already on \<open>"@"\<close> the result differs from what the
  claim describes.
\<close>

theorem zero_width_joiner_counterexample:
  "sanitizeLine [AT] = [AT, ZWSP] \<and> sanitize_spec ZWJ [AT] = [AT, ZWJ]
   \<and> sanitizeLine [AT] \<noteq> sanitize_spec ZWJ [AT]"
  by (simp add: sanitizeLine_def replaceAll_def AT_def BACKTICK_def ZWSP_def ZWJ_def)

text \<open>
  Claim C6. \<open>sanitizeLine\<close> is not idempotent: there is a string, \<open>"@"\<close>, whose
  sanitized form changes when it is sanitized again, since one more marker is inserted.
\<close>

theorem sanitizeLine_not_idempotent:
  "\<exists>x. sanitizeLine (sanitizeLine x) \<noteq> sanitizeLine x"
proof
  show "sanitizeLine (sanitizeLine [AT]) \<noteq> sanitizeLine [AT]"
    by (simp add: sanitizeLine_def replaceAll_def AT_def BACKTICK_def ZWSP_def)
qed

section \<open>Proofs: the Chunker\<close>

declare chunks_of.simps [simp del]
declare decimal.simps [simp del]

lemma chunks_of_Nil [simp]: "chunks_of mx [] = []"
  by (subst chunks_of.simps) simp

lemma chunks_of_step:
  "0 < mx \<Longrightarrow> s \<noteq> [] \<Longrightarrow> chunks_of mx s = take mx s # chunks_of mx (drop mx s)"
  by (subst chunks_of.simps) simp

lemma chunks_of_eq_Nil: "0 < mx \<Longrightarrow> chunks_of mx s = [] \<longleftrightarrow> s = []"
  by (cases "s = []") (simp_all add: chunks_of_step)

lemma splitLoop_chunks:
  "0 < mx \<Longrightarrow> splitLoop s mx i out = Some (out @ chunks_of mx (drop i s))"
proof (induction "length s - i" arbitrary: i out rule: less_induct)
  case less
  show ?case
  proof (cases "i < length s")
    case True
    have "splitLoop s mx i out = splitLoop s mx (i + mx) (out @ [slice_str s i (i + mx)])"
      using True by (subst splitLoop.simps) simp
    also have "\<dots> = Some ((out @ [slice_str s i (i + mx)]) @ chunks_of mx (drop (i + mx) s))"
      using less.prems True by (intro less.hyps) auto
    also have "slice_str s i (i + mx) = take mx (drop i s)"
      by (simp add: slice_str_def take_drop add.commute)
    also have "drop (i + mx) s = drop mx (drop i s)"
      by (simp add: add.commute)
    finally show ?thesis
      using True less.prems by (simp add: chunks_of_step [of mx "drop i s"])
  next
    case False
    then show ?thesis
      by (subst splitLoop.simps) simp
  qed
qed

lemma splitToChunks_chunks: "0 < mx \<Longrightarrow> splitToChunks s mx = Some (chunks_of mx s)"
  by (simp add: splitToChunks_def splitLoop_chunks)

lemma concat_chunks_of: "0 < mx \<Longrightarrow> concat (chunks_of mx s) = s"
proof (induction mx s rule: chunks_of.induct)
  case (1 mx s)
  then show ?case by (cases "s = []") (simp_all add: chunks_of_step)
qed

lemma length_chunk_le: "0 < mx \<Longrightarrow> c \<in> set (chunks_of mx s) \<Longrightarrow> length c \<le> mx"
proof (induction mx s rule: chunks_of.induct)
  case (1 mx s)
  then show ?case by (cases "s = []") (auto simp add: chunks_of_step)
qed

lemma ceil_step:
  fixes n mx :: nat
  assumes "0 < mx" "0 < n"
  shows "(n + (mx - 1)) div mx = Suc ((n - mx + (mx - 1)) div mx)"
proof (cases "n \<le> mx")
  case True
  with assms have "mx \<le> n + (mx - 1)" "n + (mx - 1) < 2 * mx" by auto
  then have "(n + (mx - 1)) div mx = 1"
    by (intro div_nat_eqI) auto
  with True assms show ?thesis by simp
next
  case False
  then have "n + (mx - 1) = (n - mx + (mx - 1)) + mx" by auto
  then have "(n + (mx - 1)) div mx = ((n - mx + (mx - 1)) + mx) div mx" by (rule arg_cong)
  also have "\<dots> = (n - mx + (mx - 1)) div mx + 1"
    using assms(1) by (intro div_add_self2) simp
  finally show ?thesis by (simp only: Suc_eq_plus1)
qed

lemma length_chunks_of: "0 < mx \<Longrightarrow> length (chunks_of mx s) = (length s + (mx - 1)) div mx"
proof (induction mx s rule: chunks_of.induct)
  case (1 mx s)
  show ?case
  proof (cases "s = []")
    case True
    with "1.prems" show ?thesis by simp
  next
    case False
    with 1 have "length (chunks_of mx (drop mx s)) = (length s - mx + (mx - 1)) div mx"
      by simp
    with False "1.prems" ceil_step [of mx "length s"] show ?thesis
      by (simp add: chunks_of_step)
  qed
qed

lemma slice_drop:
  "slice_str (drop m s) b e = slice_str s (m + b) (m + e)"
proof -
  have "take e (drop m s) = drop m (take (e + m) s)" by (rule take_drop)
  then show ?thesis by (simp add: slice_str_def add.commute)
qed

lemma nth_chunks_of:
  "0 < mx \<Longrightarrow> k < length (chunks_of mx s) \<Longrightarrow> chunks_of mx s ! k = slice_str s (k * mx) (k * mx + mx)"
proof (induction mx s arbitrary: k rule: chunks_of.induct)
  case (1 mx s)
  from "1.prems" have ne: "s \<noteq> []"
    by (cases "s = []") simp_all
  have unf: "chunks_of mx s = take mx s # chunks_of mx (drop mx s)"
    using ne "1.prems" by (simp add: chunks_of_step)
  show ?case
  proof (cases k)
    case 0
    then show ?thesis by (simp add: unf slice_str_def)
  next
    case (Suc j)
    with "1.prems" unf have "j < length (chunks_of mx (drop mx s))" by simp
    with 1 ne have "chunks_of mx (drop mx s) ! j = slice_str (drop mx s) (j * mx) (j * mx + mx)"
      by simp
    then show ?thesis using Suc
      by (simp add: unf slice_drop ac_simps)
  qed
qed

text \<open>
  Claim C4. For every string \<open>s\<close> and every positive \<open>mx\<close>, \<open>splitToChunks s mx\<close>
  returns, and what it returns is a list of chunks whose concatenation is \<open>s\<close>, each of
  length at most \<open>mx\<close>, the chunk number \<open>k\<close> being the substring of \<open>s\<close> from index
  \<open>k * mx\<close> up to \<open>k * mx + mx\<close>; \<open>"abcdef"\<close> cut at 2 gives \<open>"ab"\<close>, \<open>"cd"\<close>,
  \<open>"ef"\<close>, and \<open>"abc"\<close> cut at 10 gives \<open>"abc"\<close>.
\<close>

theorem splitToChunks_correct:
  "(0 < mx \<longrightarrow>
      (\<exists>cs. splitToChunks s mx = Some cs \<and> concat cs = s
         \<and> (\<forall>c \<in> set cs. length c \<le> mx)
         \<and> (\<forall>k < length cs. cs ! k = slice_str s (k * mx) (k * mx + mx))))
   \<and> splitToChunks (ascii ''abcdef'') 2 = Some [ascii ''ab'', ascii ''cd'', ascii ''ef'']
   \<and> splitToChunks (ascii ''abc'') 10 = Some [ascii ''abc'']"
proof (intro conjI impI)
  assume pos: "0 < mx"
  show "\<exists>cs. splitToChunks s mx = Some cs \<and> concat cs = s
         \<and> (\<forall>c \<in> set cs. length c \<le> mx)
         \<and> (\<forall>k < length cs. cs ! k = slice_str s (k * mx) (k * mx + mx))"
    using pos
    by (intro exI [of _ "chunks_of mx s"])
       (simp add: splitToChunks_chunks concat_chunks_of length_chunk_le nth_chunks_of)
next
  show "splitToChunks (ascii ''abcdef'') 2 = Some [ascii ''ab'', ascii ''cd'', ascii ''ef'']"
    by (simp add: splitToChunks_def splitLoop.simps slice_str_def ascii_def)
next
  show "splitToChunks (ascii ''abc'') 10 = Some [ascii ''abc'']"
    by (simp add: splitToChunks_def splitLoop.simps slice_str_def ascii_def)
qed

lemma chunks_hello:
  "splitToChunks (ascii ''hello'') 2 = Some [ascii ''he'', ascii ''ll'', ascii ''o'']"
  by (simp add: splitToChunks_def splitLoop.simps slice_str_def ascii_def)

text \<open>
  The general part of C4 at \<open>"hello"\<close> and 2.
\<close>

theorem splitToChunks_correct_witness:
  "(0::nat) < 2
   \<and> splitToChunks (ascii ''hello'') 2 = Some [ascii ''he'', ascii ''ll'', ascii ''o'']
   \<and> concat [ascii ''he'', ascii ''ll'', ascii ''o''] = ascii ''hello''
   \<and> list_all (\<lambda>c. length c \<le> 2) [ascii ''he'', ascii ''ll'', ascii ''o'']
   \<and> [ascii ''he'', ascii ''ll'', ascii ''o''] ! 1 = slice_str (ascii ''hello'') (1 * 2) (1 * 2 + 2)"
proof -
  have pos: "(0::nat) < 2" by simp
  from splitToChunks_correct [of 2 "ascii ''hello''"]
  have "(0::nat) < 2 \<longrightarrow>
      (\<exists>cs. splitToChunks (ascii ''hello'') 2 = Some cs \<and> concat cs = ascii ''hello''
         \<and> (\<forall>c \<in> set cs. length c \<le> 2)
         \<and> (\<forall>k < length cs. cs ! k = slice_str (ascii ''hello'') (k * 2) (k * 2 + 2)))"
    by (rule conjunct1)
  from this pos obtain cs where
    cs: "splitToChunks (ascii ''hello'') 2 = Some cs" and
    cat: "concat cs = ascii ''hello''" and
    len: "\<forall>c \<in> set cs. length c \<le> 2" and
    nth: "\<forall>k < length cs. cs ! k = slice_str (ascii ''hello'') (k * 2) (k * 2 + 2)"
    by blast
  from cs have eq: "cs = [ascii ''he'', ascii ''ll'', ascii ''o'']"
    by (simp only: chunks_hello option.inject)
  from len have l: "list_all (\<lambda>c. length c \<le> 2) cs" by (simp add: list_all_iff)
  from nth have "1 < length cs \<longrightarrow> cs ! 1 = slice_str (ascii ''hello'') (1 * 2) (1 * 2 + 2)"
    by (rule spec)
  moreover from eq have "1 < length cs" by simp
  ultimately have n: "cs ! 1 = slice_str (ascii ''hello'') (1 * 2) (1 * 2 + 2)"
    by (rule mp)
  from pos cs cat l n show ?thesis
    unfolding eq by (intro conjI)
qed

section \<open>Proofs: the BatchQueue\<close>

lemma MAX_CONTENT_val: "MAX_CONTENT = 1990"
  by (simp add: MAX_CONTENT_def DISCORD_HARD_LIMIT_def SAFETY_HEADROOM_def)

lemma grows_refl: "grows ok s [] s"
  by (simp add: grows_def)

lemma grows_trans: "grows ok s ms s1 \<Longrightarrow> grows ok s1 ms' s2 \<Longrightarrow> grows ok s (ms @ ms') s2"
  by (simp add: grows_def)

lemma grows_sendPacked:
  "grows ok s (if packed m = [] then [] else [m]) (sendPacked ok m s)"
  by (simp add: grows_def sendPacked_def)

lemma grows_fold:
  "(\<And>i. i \<in> set js \<Longrightarrow> packed (f i) \<noteq> []) \<Longrightarrow>
   grows ok s (map f js) (fold (\<lambda>i. sendPacked ok (f i)) js s)"
proof (induction js arbitrary: s)
  case Nil
  then show ?case by (simp add: grows_refl)
next
  case (Cons j js)
  have "grows ok s [f j] (sendPacked ok (f j) s)"
    using grows_sendPacked [of ok s "f j"] Cons.prems by simp
  moreover have "grows ok (sendPacked ok (f j) s) (map f js)
      (fold (\<lambda>i. sendPacked ok (f i)) js (sendPacked ok (f j) s))"
    using Cons.prems by (intro Cons.IH) simp
  ultimately show ?case
    using grows_trans by fastforce
qed

lemma grows_sendChunks: "grows ok s (fragments chunks) (sendChunks ok chunks s)"
  unfolding fragments_def sendChunks_def
  by (rule grows_fold) simp

lemma MAX_CONTENT_pos: "0 < MAX_CONTENT"
  by (simp add: MAX_CONTENT_val)

lemma drain_emitted:
  "\<exists>c l s'. drain mx ok q (cur, len, s) = Some (c, l, s')
     \<and> grows ok (s\<lparr>queue := []\<rparr>) (emitted mx q cur len)
          ((if c \<noteq> [] then sendPacked ok (Batch c) s' else s')\<lparr>queue := []\<rparr>)
     \<and> (q \<noteq> [] \<longrightarrow> queue s' = [])"
proof (induction q arbitrary: cur len s)
  case Nil
  show ?case
    using grows_sendPacked [of ok "s" "Batch cur"]
    by (auto simp add: grows_def)
next
  case (Cons raw q)
  let ?s = "s\<lparr>queue := q\<rparr>"
  let ?fl = "if cur \<noteq> [] then sendPacked ok (Batch cur) ?s else ?s"
  let ?b = "if cur \<noteq> [] then [Batch cur] else []"
  have fl: "grows ok ?s ?b ?fl"
    using grows_sendPacked [of ok ?s "Batch cur"] by (cases "cur = []") (simp_all add: grows_refl)
  show ?case
  proof (cases "length raw > MAX_CONTENT")
    case True
    let ?s2 = "sendChunks ok (chunks_of MAX_CONTENT raw) ?fl"
    let ?l1 = "if cur \<noteq> [] then 0 else len"
    have step: "drain mx ok (raw # q) (cur, len, s) = drain mx ok q ([], ?l1, ?s2)"
      using True by (simp add: splitToChunks_chunks MAX_CONTENT_pos flushCurrent_def)
    have g: "grows ok ?s (?b @ fragments (chunks_of MAX_CONTENT raw)) ?s2"
      using fl grows_sendChunks by (rule grows_trans)
    from Cons.IH [of "[]" ?l1 ?s2] obtain c l s' where
      d: "drain mx ok q ([], ?l1, ?s2) = Some (c, l, s')" and
      g2: "grows ok (?s2\<lparr>queue := []\<rparr>) (emitted mx q [] ?l1)
          ((if c \<noteq> [] then sendPacked ok (Batch c) s' else s')\<lparr>queue := []\<rparr>)" and
      qe: "q \<noteq> [] \<longrightarrow> queue s' = []"
      by blast
    have "grows ok (s\<lparr>queue := []\<rparr>) (?b @ fragments (chunks_of MAX_CONTENT raw)) (?s2\<lparr>queue := []\<rparr>)"
      using g by (simp add: grows_def)
    from grows_trans [OF this g2] True
    have "grows ok (s\<lparr>queue := []\<rparr>) (emitted mx (raw # q) cur len)
          ((if c \<noteq> [] then sendPacked ok (Batch c) s' else s')\<lparr>queue := []\<rparr>)"
      by simp
    moreover have "queue s' = []"
    proof (cases "q = []")
      case True
      with d have "s' = ?s2" by simp
      with g True show ?thesis by (simp add: grows_def)
    next
      case False
      with qe show ?thesis by simp
    qed
    ultimately show ?thesis using step d by simp
  next
    case False
    let ?addLen = "(if cur = [] then 0 else 1) + length raw"
    show ?thesis
    proof (cases "len + ?addLen > MAX_CONTENT \<or> real (length cur + 1) > mx")
      case ov: True
      have step: "drain mx ok (raw # q) (cur, len, s) = drain mx ok q ([raw], ?addLen, ?fl)"
        using False ov by (simp add: flushCurrent_def Let_def)
      from Cons.IH [of "[raw]" ?addLen ?fl] obtain c l s' where
        d: "drain mx ok q ([raw], ?addLen, ?fl) = Some (c, l, s')" and
        g2: "grows ok (?fl\<lparr>queue := []\<rparr>) (emitted mx q [raw] ?addLen)
          ((if c \<noteq> [] then sendPacked ok (Batch c) s' else s')\<lparr>queue := []\<rparr>)" and
        qe: "q \<noteq> [] \<longrightarrow> queue s' = []"
        by blast
      have "grows ok (s\<lparr>queue := []\<rparr>) ?b (?fl\<lparr>queue := []\<rparr>)"
        using fl by (simp add: grows_def)
      from grows_trans [OF this g2] False ov
      have "grows ok (s\<lparr>queue := []\<rparr>) (emitted mx (raw # q) cur len)
          ((if c \<noteq> [] then sendPacked ok (Batch c) s' else s')\<lparr>queue := []\<rparr>)"
        by simp
      moreover have "queue s' = []"
      proof (cases "q = []")
        case True
        with d have "s' = ?fl" by simp
        with fl True show ?thesis by (simp add: grows_def)
      next
        case False
        with qe show ?thesis by simp
      qed
      ultimately show ?thesis using step d by simp
    next
      case nov: False
      have step: "drain mx ok (raw # q) (cur, len, s) = drain mx ok q (cur @ [raw], len + ?addLen, ?s)"
        using False nov by (simp add: Let_def)
      from Cons.IH [of "cur @ [raw]" "len + ?addLen" ?s] obtain c l s' where
        d: "drain mx ok q (cur @ [raw], len + ?addLen, ?s) = Some (c, l, s')" and
        g2: "grows ok (?s\<lparr>queue := []\<rparr>) (emitted mx q (cur @ [raw]) (len + ?addLen))
          ((if c \<noteq> [] then sendPacked ok (Batch c) s' else s')\<lparr>queue := []\<rparr>)" and
        qe: "q \<noteq> [] \<longrightarrow> queue s' = []"
        by blast
      from g2 False nov
      have "grows ok (s\<lparr>queue := []\<rparr>) (emitted mx (raw # q) cur len)
          ((if c \<noteq> [] then sendPacked ok (Batch c) s' else s')\<lparr>queue := []\<rparr>)"
        by simp
      moreover have "queue s' = []"
      proof (cases "q = []")
        case True
        with d have "s' = ?s" by simp
        with True show ?thesis by simp
      next
        case False
        with qe show ?thesis by simp
      qed
      ultimately show ?thesis using step d by simp
    qed
  qed
qed

lemma stopFlushTimer_fields [simp]:
  "outbox (stopFlushTimer force s) = outbox s"
  "delivered (stopFlushTimer force s) = delivered s"
  "queue (stopFlushTimer force s) = queue s"
  "channel (stopFlushTimer force s) = channel s"
  by (simp_all add: stopFlushTimer_def)

lemma flushQueue_emitted:
  assumes "channel s"
  shows "\<exists>s'. flushQueue mx ok force s = Some s'
           \<and> outbox s' = outbox s @ emitted mx (queue s) [] 0
           \<and> queue s' = [] \<and> channel s'
           \<and> ((\<forall>k. ok k) \<longrightarrow> delivered s' = delivered s @ emitted mx (queue s) [] 0)"
proof (cases "queue s = []")
  case True
  then show ?thesis using assms by (simp add: flushQueue_def)
next
  case False
  from drain_emitted [of mx ok "queue s" "[]" 0 s] obtain c l s1 where
    d: "drain mx ok (queue s) ([], 0, s) = Some (c, l, s1)" and
    g: "grows ok (s\<lparr>queue := []\<rparr>) (emitted mx (queue s) [] 0)
          ((if c \<noteq> [] then sendPacked ok (Batch c) s1 else s1)\<lparr>queue := []\<rparr>)" and
    qe: "queue s1 = []"
    using False by blast
  let ?s2 = "if c \<noteq> [] then sendPacked ok (Batch c) s1 else s1"
  have fq: "flushQueue mx ok force s = Some (stopFlushTimer force ?s2)"
    using False assms d by (simp add: flushQueue_def flushCurrent_def)
  have "queue ?s2 = []"
    using qe by (simp add: sendPacked_def)
  with g assms fq show ?thesis
    by (simp add: grows_def)
qed

lemma emits_eq: "emits mx ok force s = Some (if channel s then emitted mx (queue s) [] 0 else [])"
proof (cases "channel s")
  case True
  from flushQueue_emitted [OF this, of mx ok force] show ?thesis
    using True by (auto simp add: emits_def)
next
  case False
  then show ?thesis by (simp add: emits_def flushQueue_def)
qed

lemma fold_enqueue:
  "queue (fold enqueue ls s) = queue s @ map sanitizeLine ls
   \<and> channel (fold enqueue ls s) = channel s
   \<and> outbox (fold enqueue ls s) = outbox s
   \<and> delivered (fold enqueue ls s) = delivered s"
  by (induction ls arbitrary: s) (simp_all add: enqueue_def startFlushTimer_def)

lemma text_fragments: "concat (map text_of (fragments cs)) = concat cs"
proof -
  have "map text_of (fragments cs) = map (\<lambda>i. cs ! i) [0..<length cs]"
    by (simp add: fragments_def)
  then show ?thesis by (simp add: map_nth)
qed

lemma text_emitted: "concat (map text_of (emitted mx q cur len)) = concat cur @ concat q"
  by (induction mx q cur len rule: emitted.induct)
     (simp_all add: text_fragments concat_chunks_of MAX_CONTENT_pos)

lemma length_join_snoc:
  "length (join sep (ls @ [l])) = length (join sep ls) + (if ls = [] then 0 else length sep) + length l"
  by (induction sep ls rule: join.induct) simp_all

lemma batch_fragments: "Batch ls \<notin> set (fragments cs)"
  by (auto simp add: fragments_def)

lemma batches_emitted:
  "1 \<le> mx \<Longrightarrow> length (join [NEWLINE] cur) \<le> MAX_CONTENT \<Longrightarrow> length (join [NEWLINE] cur) \<le> len \<Longrightarrow>
     real (length cur) \<le> mx \<Longrightarrow> Batch ls \<in> set (emitted mx q cur len) \<Longrightarrow>
     length (join [NEWLINE] ls) \<le> MAX_CONTENT \<and> real (length ls) \<le> mx"
proof (induction mx q cur len rule: emitted.induct)
  case (1 mx current currentLen)
  then show ?case by (auto split: if_splits)
next
  case (2 mx raw q current currentLen)
  show ?case
  proof (cases "length raw > MAX_CONTENT")
    case True
    with "2.prems" consider "ls = current" | "Batch ls \<in> set (emitted mx q [] (if current \<noteq> [] then 0 else currentLen))"
      by (auto simp add: batch_fragments split: if_splits)
    then show ?thesis
    proof cases
      case 1
      with "2.prems" show ?thesis by simp
    next
      case b: 2
      show ?thesis
        by (rule "2.IH"(1) [OF True _ _ _ _ b]) (use "2.prems" in simp_all)
    qed
  next
    case False
    let ?addLen = "(if current = [] then 0 else 1) + length raw"
    show ?thesis
    proof (cases "currentLen + ?addLen > MAX_CONTENT \<or> real (length current + 1) > mx")
      case ov: True
      with False "2.prems" consider "ls = current" | "Batch ls \<in> set (emitted mx q [raw] ?addLen)"
        by (auto split: if_splits)
      then show ?thesis
      proof cases
        case 1
        with "2.prems" show ?thesis by simp
      next
        case b: 2
        show ?thesis
          by (rule "2.IH"(2) [OF False ov _ _ _ _ b]) (use False "2.prems" in simp_all)
      qed
    next
      case nov: False
      with False "2.prems" have b: "Batch ls \<in> set (emitted mx q (current @ [raw]) (currentLen + ?addLen))"
        by (auto split: if_splits)
      show ?thesis
        by (rule "2.IH"(3) [OF False nov _ _ _ _ b])
           (use False nov "2.prems" in \<open>auto simp add: length_join_snoc\<close>)
    qed
  qed
qed

text \<open>
  What a flush does when it is left alone. When the channel is set and no send fails, a
  call of \<open>flushQueue\<close> made after the calls of \<open>enqueue\<close>, and run to its end with no
  call of \<open>enqueue\<close> or \<open>flushQueue\<close> in between, returns with the queue empty, and the
  messages it delivered carry, read in order and without separators and suffixes, the
  text of the lines that were queued before followed by the line that each call of
  \<open>enqueue\<close> queued (its argument, sanitized), in the order of the calls.
\<close>

theorem flush_delivers_all:
  assumes "channel s" and "\<forall>k. ok k"
  shows "\<exists>s'. flushQueue mx ok force (fold enqueue ls s) = Some s' \<and> queue s' = []
           \<and> (\<exists>ms. delivered s' = delivered s @ ms
                 \<and> concat (map text_of ms) = concat (queue s @ map sanitizeLine ls))"
proof -
  let ?s = "fold enqueue ls s"
  have ch: "channel ?s" using assms(1) by (simp add: fold_enqueue)
  from flushQueue_emitted [OF ch, of mx ok force] obtain s' where
    f: "flushQueue mx ok force ?s = Some s'" and q: "queue s' = []" and
    d: "delivered s' = delivered ?s @ emitted mx (queue ?s) [] 0"
    using assms(2) by blast
  have "concat (map text_of (emitted mx (queue ?s) [] 0)) = concat (queue s @ map sanitizeLine ls)"
    by (simp add: text_emitted fold_enqueue)
  with f q d show ?thesis by (simp add: fold_enqueue)
qed

lemma flush_abc:
  "flushQueue 2 (\<lambda>k. True) True (fold enqueue [ascii ''a'', ascii ''b'', ascii ''c''] ready)
     = Some \<lparr>channel = True, queue = [], flushTimer = False,
             outbox = [Batch [ascii ''a'', ascii ''b''], Batch [ascii ''c'']],
             delivered = [Batch [ascii ''a'', ascii ''b''], Batch [ascii ''c'']]\<rparr>"
  by (simp add: flushQueue_def ready_def enqueue_def startFlushTimer_def sanitizeLine_def
      replaceAll_def flushCurrent_def sendPacked_def stopFlushTimer_def MAX_CONTENT_val
      AT_def BACKTICK_def ZWSP_def ascii_def)

text \<open>
  The same at the lines \<open>"a"\<close>, \<open>"b"\<close>, \<open>"c"\<close>, with two lines to a batch.
\<close>

theorem flush_delivers_all_witness:
  "channel ready \<and> (\<forall>k. (\<lambda>k. True) k)
   \<and> flushQueue 2 (\<lambda>k. True) True (fold enqueue [ascii ''a'', ascii ''b'', ascii ''c''] ready)
       = Some \<lparr>channel = True, queue = [], flushTimer = False,
               outbox = [Batch [ascii ''a'', ascii ''b''], Batch [ascii ''c'']],
               delivered = [Batch [ascii ''a'', ascii ''b''], Batch [ascii ''c'']]\<rparr>
   \<and> concat (map text_of [Batch [ascii ''a'', ascii ''b''], Batch [ascii ''c'']])
       = concat (queue ready @ map sanitizeLine [ascii ''a'', ascii ''b'', ascii ''c''])"
proof -
  have a: "channel ready" by (simp add: ready_def)
  have b: "\<forall>k::nat. (\<lambda>k. True) k" by simp
  from flush_delivers_all [OF a b, of 2 True "[ascii ''a'', ascii ''b'', ascii ''c'']"]
  obtain s' ms where
    f: "flushQueue 2 (\<lambda>k. True) True (fold enqueue [ascii ''a'', ascii ''b'', ascii ''c''] ready) = Some s'" and
    d: "delivered s' = delivered ready @ ms" and
    t: "concat (map text_of ms)
          = concat (queue ready @ map sanitizeLine [ascii ''a'', ascii ''b'', ascii ''c''])"
    by blast
  from f have "s' = \<lparr>channel = True, queue = [], flushTimer = False,
               outbox = [Batch [ascii ''a'', ascii ''b''], Batch [ascii ''c'']],
               delivered = [Batch [ascii ''a'', ascii ''b''], Batch [ascii ''c'']]\<rparr>"
    by (simp only: flush_abc option.inject)
  with d have "ms = [Batch [ascii ''a'', ascii ''b''], Batch [ascii ''c'']]"
    by (simp add: ready_def)
  with t a b flush_abc show ?thesis by simp
qed

text \<open>
  Claim C2. When \<open>MAX_LINES_PER_BATCH\<close> is at least 1, a flush returns, and every
  batch it sends is at most \<open>MAX_CONTENT\<close> = 1990 code units long once its lines are
  joined by newlines, and has at most \<open>MAX_LINES_PER_BATCH\<close> lines, whatever the queue
  holds.
\<close>

theorem batch_bounds:
  assumes "1 \<le> mx"
  shows "MAX_CONTENT = 1990
         \<and> (\<exists>ms. emits mx ok force s = Some ms
               \<and> (\<forall>ls. Batch ls \<in> set ms \<longrightarrow>
                     length (join [NEWLINE] ls) \<le> MAX_CONTENT \<and> real (length ls) \<le> mx))"
proof -
  have "length (join [NEWLINE] ls) \<le> MAX_CONTENT \<and> real (length ls) \<le> mx"
    if "Batch ls \<in> set (emitted mx q [] 0)" for ls q
    using batches_emitted [OF assms _ _ _ that] assms by simp
  then show ?thesis
    by (auto simp add: emits_eq MAX_CONTENT_val)
qed

lemma emits_abc:
  "emits 2 (\<lambda>k. True) True (fold enqueue [ascii ''a'', ascii ''b'', ascii ''c''] ready)
     = Some [Batch [ascii ''a'', ascii ''b''], Batch [ascii ''c'']]"
  by (simp add: emits_def flushQueue_def ready_def enqueue_def startFlushTimer_def sanitizeLine_def
      replaceAll_def flushCurrent_def sendPacked_def stopFlushTimer_def MAX_CONTENT_val
      AT_def BACKTICK_def ZWSP_def ascii_def)

text \<open>
  C2 with two lines to a batch, at the lines \<open>"a"\<close>, \<open>"b"\<close>, \<open>"c"\<close>.
\<close>

theorem batch_bounds_witness:
  "(1::real) \<le> 2
   \<and> emits 2 (\<lambda>k. True) True (fold enqueue [ascii ''a'', ascii ''b'', ascii ''c''] ready)
       = Some [Batch [ascii ''a'', ascii ''b''], Batch [ascii ''c'']]
   \<and> length (join [NEWLINE] [ascii ''a'', ascii ''b'']) \<le> MAX_CONTENT
   \<and> real (length [ascii ''a'', ascii ''b'']) \<le> 2"
proof -
  have h: "(1::real) \<le> 2" by simp
  let ?s = "fold enqueue [ascii ''a'', ascii ''b'', ascii ''c''] ready"
  from batch_bounds [OF h, of "\<lambda>k. True" True ?s] obtain ms where
    ms: "emits 2 (\<lambda>k. True) True ?s = Some ms" and
    b: "\<forall>ls. Batch ls \<in> set ms \<longrightarrow>
          length (join [NEWLINE] ls) \<le> MAX_CONTENT \<and> real (length ls) \<le> 2"
    by blast
  from ms have eq: "ms = [Batch [ascii ''a'', ascii ''b''], Batch [ascii ''c'']]"
    by (simp only: emits_abc option.inject)
  then have "Batch [ascii ''a'', ascii ''b''] \<in> set ms" by simp
  with b have "length (join [NEWLINE] [ascii ''a'', ascii ''b'']) \<le> MAX_CONTENT
      \<and> real (length [ascii ''a'', ascii ''b'']) \<le> 2"
    by blast
  with h emits_abc show ?thesis by blast
qed

lemma emitted_oversize_split:
  "(cur = [] \<longrightarrow> len = 0) \<Longrightarrow> MAX_CONTENT < length l \<Longrightarrow>
   emitted mx (pre @ l # post) cur len
     = emitted mx pre cur len @ fragments (chunks_of MAX_CONTENT l) @ emitted mx post [] 0"
  by (induction pre arbitrary: cur len) auto

lemma emitted_exact_split:
  "(cur = [] \<longrightarrow> len = 0) \<Longrightarrow> length l = MAX_CONTENT \<Longrightarrow>
   \<exists>L\<ge>MAX_CONTENT. emitted mx (pre @ l # post) cur len = emitted mx pre cur len @ emitted mx post [l] L"
proof (induction pre arbitrary: cur len)
  case Nil
  show ?case
  proof (cases "cur = []")
    case True
    with Nil show ?thesis
      by (intro exI [of _ MAX_CONTENT]) auto
  next
    case False
    with Nil show ?thesis
      by (intro exI [of _ "Suc MAX_CONTENT"]) auto
  qed
next
  case (Cons raw pre)
  show ?case
  proof (cases "length raw > MAX_CONTENT")
    case True
    from Cons.IH [of "[]" "if cur \<noteq> [] then 0 else len"] Cons.prems obtain L where
      "L \<ge> MAX_CONTENT" "emitted mx (pre @ l # post) [] (if cur \<noteq> [] then 0 else len)
         = emitted mx pre [] (if cur \<noteq> [] then 0 else len) @ emitted mx post [l] L"
      by auto
    with True show ?thesis by auto
  next
    case False
    let ?addLen = "(if cur = [] then 0 else 1) + length raw"
    show ?thesis
    proof (cases "len + ?addLen > MAX_CONTENT \<or> real (length cur + 1) > mx")
      case ov: True
      from Cons.IH [of "[raw]" ?addLen] Cons.prems obtain L where
        "L \<ge> MAX_CONTENT" "emitted mx (pre @ l # post) [raw] ?addLen
           = emitted mx pre [raw] ?addLen @ emitted mx post [l] L"
        by auto
      with False ov show ?thesis by auto
    next
      case nov: False
      from Cons.IH [of "cur @ [raw]" "len + ?addLen"] Cons.prems obtain L where
        "L \<ge> MAX_CONTENT" "emitted mx (pre @ l # post) (cur @ [raw]) (len + ?addLen)
           = emitted mx pre (cur @ [raw]) (len + ?addLen) @ emitted mx post [l] L"
        by auto
      with False nov show ?thesis by auto
    qed
  qed
qed

lemma emitted_full_head:
  "MAX_CONTENT \<le> L \<Longrightarrow> \<exists>rest. emitted mx post [l] L = Batch [l] # rest"
  by (cases post) auto

lemma ceiling_div:
  fixes n m :: nat
  assumes "0 < m"
  shows "int ((n + (m - 1)) div m) = \<lceil>real n / real m\<rceil>"
proof -
  let ?q = "(n + (m - 1)) div m"
  have a: "?q * m \<le> n + (m - 1)" by simp
  have b: "n + (m - 1) < ?q * m + m"
    using assms by (metis dividend_less_div_times add.commute mult.commute)
  have "real n \<le> real ?q * real m"
  proof -
    from b assms have "n \<le> ?q * m" by linarith
    then have "real n \<le> real (?q * m)" by (rule iffD2 [OF of_nat_le_iff])
    then show ?thesis by simp
  qed
  then have up: "real n / real m \<le> real ?q"
    using assms by (simp add: divide_le_eq)
  have "real ?q * real m < real n + real m"
  proof -
    from a assms have "?q * m < n + m" by linarith
    then have "real (?q * m) < real (n + m)" by (rule iffD2 [OF of_nat_less_iff])
    then show ?thesis by simp
  qed
  then have lo: "real ?q - 1 < real n / real m"
    using assms by (simp add: less_divide_eq algebra_simps)
  from lo up show ?thesis
    by (intro ceiling_unique [symmetric]) simp_all
qed

text \<open>
  Claim C3. Let the queue hold a line \<open>l\<close> longer than \<open>MAX_CONTENT\<close>, after the lines
  \<open>pre\<close> and before the lines \<open>post\<close>, and let the channel be set. Then
  \<open>splitToChunks\<close> cuts \<open>l\<close> into the ceiling of \<open>length l / MAX_CONTENT\<close> chunks, each
  at most \<open>MAX_CONTENT\<close> long, whose concatenation is \<open>l\<close>; the flush sends what a
  flush of \<open>pre\<close> alone sends, then one message for each chunk, in order, then what a
  flush of \<open>post\<close> alone sends, so \<open>l\<close> shares no batch with another line; and the
  content of the message for the chunk at index \<open>i\<close> is the chunk, followed by
  \<open>" [i+1/total]"\<close> when there is more than one chunk and by nothing otherwise.
\<close>

theorem oversized_line_chunked:
  assumes "MAX_CONTENT < length l" and "channel s"
  shows "\<exists>cs a b. splitToChunks l MAX_CONTENT = Some cs
           \<and> int (length cs) = \<lceil>real (length l) / real MAX_CONTENT\<rceil>
           \<and> (\<forall>c \<in> set cs. length c \<le> MAX_CONTENT)
           \<and> concat cs = l
           \<and> emits mx ok force (s\<lparr>queue := pre\<rparr>) = Some a
           \<and> emits mx ok force (s\<lparr>queue := post\<rparr>) = Some b
           \<and> emits mx ok force (s\<lparr>queue := pre @ l # post\<rparr>)
               = Some (a @ map (\<lambda>i. Fragment (cs ! i) (chunk_suffix i (length cs))) [0..<length cs] @ b)
           \<and> (\<forall>i < length cs. content (Fragment (cs ! i) (chunk_suffix i (length cs)))
                 = cs ! i @ (if 1 < length cs
                             then ascii '' ['' @ decimal (i + 1) @ ascii ''/'' @ decimal (length cs) @ ascii '']''
                             else []))"
proof -
  let ?cs = "chunks_of MAX_CONTENT l"
  have 1: "splitToChunks l MAX_CONTENT = Some ?cs"
    by (simp add: splitToChunks_chunks MAX_CONTENT_pos)
  have 2: "int (length ?cs) = \<lceil>real (length l) / real MAX_CONTENT\<rceil>"
    by (simp only: length_chunks_of [OF MAX_CONTENT_pos] ceiling_div [OF MAX_CONTENT_pos])
  have 3: "\<forall>c \<in> set ?cs. length c \<le> MAX_CONTENT"
    using length_chunk_le [OF MAX_CONTENT_pos] by blast
  have 4: "concat ?cs = l"
    by (rule concat_chunks_of [OF MAX_CONTENT_pos])
  have 5: "emits mx ok force (s\<lparr>queue := pre @ l # post\<rparr>)
      = Some (emitted mx pre [] 0 @ fragments ?cs @ emitted mx post [] 0)"
    using assms by (simp add: emits_eq emitted_oversize_split)
  have 6: "\<forall>i < length ?cs. content (Fragment (?cs ! i) (chunk_suffix i (length ?cs)))
                 = ?cs ! i @ (if 1 < length ?cs
                             then ascii '' ['' @ decimal (i + 1) @ ascii ''/'' @ decimal (length ?cs) @ ascii '']''
                             else [])"
    by (simp add: content_def chunk_suffix_def)
  from 1 2 3 4 5 6 assms(2) show ?thesis
    by (intro exI [of _ ?cs] exI [of _ "emitted mx pre [] 0"] exI [of _ "emitted mx post [] 0"])
       (simp add: emits_eq fragments_def)
qed

text \<open>
  Claim C10. Let the queue hold a line \<open>l\<close> of length exactly \<open>MAX_CONTENT\<close>, after the
  lines \<open>pre\<close> and before the lines \<open>post\<close>, and let the channel be set. Then the flush
  sends what a flush of \<open>pre\<close> alone sends, then the batch that holds \<open>l\<close> and nothing
  else, whole and without a suffix, then messages that carry the text of \<open>post\<close>.
\<close>

theorem full_line_alone:
  assumes "length l = MAX_CONTENT" and "channel s"
  shows "\<exists>a rest. emits mx ok force (s\<lparr>queue := pre\<rparr>) = Some a
           \<and> emits mx ok force (s\<lparr>queue := pre @ l # post\<rparr>) = Some (a @ Batch [l] # rest)
           \<and> concat (map text_of rest) = concat post"
proof -
  from emitted_exact_split [of "[]" 0 l mx pre post] assms(1) obtain L where
    L: "MAX_CONTENT \<le> L" and
    e: "emitted mx (pre @ l # post) [] 0 = emitted mx pre [] 0 @ emitted mx post [l] L"
    by auto
  from emitted_full_head [OF L] obtain rest where r: "emitted mx post [l] L = Batch [l] # rest"
    by blast
  have "concat (map text_of (emitted mx post [l] L)) = l @ concat post"
    by (simp add: text_emitted)
  with r have t: "concat (map text_of rest) = concat post" by simp
  from e r t assms(2) show ?thesis
    by (simp add: emits_eq)
qed

lemma replaceFrom_absent:
  "pat \<noteq> [] \<Longrightarrow> hd pat \<notin> set s \<Longrightarrow> replaceFrom s pat rep = s"
proof (induction s)
  case Nil
  then show ?case by simp
next
  case (Cons c cs)
  have "take (length pat) (c # cs) \<noteq> pat"
  proof
    assume "take (length pat) (c # cs) = pat"
    then have "hd pat = c" using Cons.prems(1) by (cases pat) auto
    with Cons.prems(2) show False by simp
  qed
  with Cons show ?case by simp
qed

lemma sanitizeLine_plain:
  "AT \<notin> set s \<Longrightarrow> BACKTICK \<notin> set s \<Longrightarrow> sanitizeLine s = s"
  by (simp add: sanitizeLine_def replaceAll_def replaceFrom_absent)

lemma length_decimal_100: "length (decimal 100) = 3"
  by (simp add: decimal.simps)

lemma length_decimal_1000: "length (decimal 1000) = 4"
  by (simp add: decimal.simps)

lemma slice_replicate: "slice_str (replicate n x) b e = replicate (min e n - b) x"
  by (simp add: slice_str_def min.commute)

lemma length_decimal_le: "n < 1000 \<Longrightarrow> length (decimal n) \<le> 3"
proof -
  assume n: "n < 1000"
  have d1: "length (decimal k) = 1" if "k < 10" for k
    using that by (subst decimal.simps) simp
  have d2: "length (decimal k) \<le> 2" if "k < 100" for k
  proof (cases "k < 10")
    case True
    then show ?thesis by (simp add: d1)
  next
    case False
    with that have "k div 10 < 10" by simp
    with False show ?thesis by (subst decimal.simps) (simp add: d1)
  qed
  show ?thesis
  proof (cases "n < 10")
    case True
    then show ?thesis by (simp add: d1)
  next
    case False
    with n have "n div 10 < 100" by simp
    with False d2 [of "n div 10"] show ?thesis by (subst decimal.simps) simp
  qed
qed

lemma length_chunk_suffix_le:
  "i < n \<Longrightarrow> n < 1000 \<Longrightarrow> length (chunk_suffix i n) \<le> SAFETY_HEADROOM"
  using length_decimal_le [of "i + 1"] length_decimal_le [of n]
  by (simp add: chunk_suffix_def ascii_def SAFETY_HEADROOM_def)

lemma content_fragments:
  assumes "length raw \<le> 999 * MAX_CONTENT" and "m \<in> set (fragments (chunks_of MAX_CONTENT raw))"
  shows "length (content m) \<le> DISCORD_HARD_LIMIT"
proof -
  let ?cs = "chunks_of MAX_CONTENT raw"
  have "length ?cs = (length raw + (MAX_CONTENT - 1)) div MAX_CONTENT"
    by (rule length_chunks_of [OF MAX_CONTENT_pos])
  also have "\<dots> \<le> (999 * MAX_CONTENT + (MAX_CONTENT - 1)) div MAX_CONTENT"
    using assms(1) by (intro div_le_mono) simp
  also have "\<dots> = 999" by (simp add: MAX_CONTENT_val)
  finally have n: "length ?cs < 1000" by simp
  from assms(2) obtain i where i: "i < length ?cs" and m: "m = Fragment (?cs ! i) (chunk_suffix i (length ?cs))"
    by (auto simp add: fragments_def)
  have "length (?cs ! i) \<le> MAX_CONTENT"
    using length_chunk_le [OF MAX_CONTENT_pos, of "?cs ! i" raw] i by simp
  moreover have "length (chunk_suffix i (length ?cs)) \<le> SAFETY_HEADROOM"
    using i n by (rule length_chunk_suffix_le)
  ultimately show ?thesis
    by (simp add: m content_def MAX_CONTENT_def DISCORD_HARD_LIMIT_def SAFETY_HEADROOM_def)
qed

lemma content_emitted:
  "\<forall>l \<in> set q. length l \<le> 999 * MAX_CONTENT \<Longrightarrow>
   length (join [NEWLINE] cur) \<le> MAX_CONTENT \<Longrightarrow> length (join [NEWLINE] cur) \<le> len \<Longrightarrow>
   m \<in> set (emitted mx q cur len) \<Longrightarrow> length (content m) \<le> DISCORD_HARD_LIMIT"
proof (induction mx q cur len rule: emitted.induct)
  case (1 mx current currentLen)
  then show ?case
    by (auto simp add: content_def MAX_CONTENT_def DISCORD_HARD_LIMIT_def split: if_splits)
next
  case (2 mx raw q current currentLen)
  have b: "length (content (Batch current)) \<le> DISCORD_HARD_LIMIT"
    using "2.prems"(2) by (simp add: content_def MAX_CONTENT_def DISCORD_HARD_LIMIT_def)
  have rest: "\<forall>l \<in> set q. length l \<le> 999 * MAX_CONTENT"
    using "2.prems"(1) by simp
  show ?case
  proof (cases "length raw > MAX_CONTENT")
    case True
    with "2.prems" consider "m = Batch current"
      | "m \<in> set (fragments (chunks_of MAX_CONTENT raw))"
      | "m \<in> set (emitted mx q [] (if current \<noteq> [] then 0 else currentLen))"
      by (auto split: if_splits)
    then show ?thesis
    proof cases
      case 1
      with b show ?thesis by simp
    next
      case 2
      with "2.prems"(1) show ?thesis by (intro content_fragments [of raw]) simp_all
    next
      case 3
      show ?thesis
        by (rule "2.IH"(1) [OF True rest _ _ 3]) simp_all
    qed
  next
    case False
    let ?addLen = "(if current = [] then 0 else 1) + length raw"
    show ?thesis
    proof (cases "currentLen + ?addLen > MAX_CONTENT \<or> real (length current + 1) > mx")
      case ov: True
      with False "2.prems" consider "m = Batch current" | "m \<in> set (emitted mx q [raw] ?addLen)"
        by (auto split: if_splits)
      then show ?thesis
      proof cases
        case 1
        with b show ?thesis by simp
      next
        case 2
        show ?thesis
          by (rule "2.IH"(2) [OF False ov rest _ _ 2]) (use False in simp_all)
      qed
    next
      case nov: False
      with False "2.prems" have 3: "m \<in> set (emitted mx q (current @ [raw]) (currentLen + ?addLen))"
        by (auto split: if_splits)
      show ?thesis
        by (rule "2.IH"(3) [OF False nov rest _ _ 3])
           (use False nov "2.prems" in \<open>auto simp add: length_join_snoc\<close>)
    qed
  qed
qed

text \<open>
  Up to 999 chunks to a line the ceiling holds: when no queued line is longer than 999
  times \<open>MAX_CONTENT\<close>, every suffix fits in \<open>SAFETY_HEADROOM\<close> and every content of a
  flush is at most \<open>DISCORD_HARD_LIMIT\<close> long.
\<close>

theorem within_hard_limit:
  assumes "\<forall>l \<in> set (queue s). length l \<le> 999 * MAX_CONTENT"
  shows "\<exists>ms. emits mx ok force s = Some ms \<and> (\<forall>m \<in> set ms. length (content m) \<le> DISCORD_HARD_LIMIT)"
proof -
  have "length (content m) \<le> DISCORD_HARD_LIMIT" if "m \<in> set (emitted mx (queue s) [] 0)" for m
    using content_emitted [OF assms _ _ that] by simp
  then show ?thesis by (simp add: emits_eq)
qed

text \<open>
  Claim C7 fails on the code from 1000 chunks on. One enqueued line of 1988011 letters
  \<open>a\<close> (one more than 999 times \<open>MAX_CONTENT\<close>) is cut into 1000 chunks; the chunk
  number 100 is 1990 code units long and its suffix \<open>" [100/1000]"\<close> is 11 long, so the
  content handed to \<open>channel.send\<close> has 2001 code units, above \<open>DISCORD_HARD_LIMIT\<close>.
\<close>

theorem hard_limit_exceeded:
  "\<exists>s'. flushQueue 40 (\<lambda>k. True) False (enqueue (replicate 1988011 0x61) ready) = Some s'
      \<and> length (outbox s') = 1000
      \<and> length (content (outbox s' ! 99)) = 2001
      \<and> DISCORD_HARD_LIMIT < length (content (outbox s' ! 99))"
proof -
  let ?l = "replicate 1988011 (0x61 :: 16 word)"
  let ?s = "enqueue ?l ready"
  let ?cs = "chunks_of MAX_CONTENT ?l"
  have san: "sanitizeLine ?l = ?l"
    by (rule sanitizeLine_plain) (simp_all add: AT_def BACKTICK_def)
  have q: "queue ?s = [?l]" and ch: "channel ?s" and ob: "outbox ?s = []"
    by (simp_all add: enqueue_def startFlushTimer_def ready_def san)
  have n: "length ?cs = 1000"
    by (simp add: length_chunks_of MAX_CONTENT_pos) (simp add: MAX_CONTENT_val)
  have em: "emitted 40 (queue ?s) [] 0 = fragments ?cs"
    by (simp add: q MAX_CONTENT_val)
  have c99: "?cs ! 99 = replicate 1990 0x61"
    using nth_chunks_of [OF MAX_CONTENT_pos, of 99 ?l] n
    by (simp add: slice_replicate MAX_CONTENT_val)
  have "fragments ?cs ! 99 = Fragment (?cs ! 99) (chunk_suffix 99 1000)"
    using n by (simp add: fragments_def)
  then have len: "length (content (fragments ?cs ! 99)) = 2001"
    by (simp add: c99 content_def chunk_suffix_def ascii_def length_decimal_100 length_decimal_1000)
  from flushQueue_emitted [OF ch, of 40 "\<lambda>k. True" False] obtain s' where
    f: "flushQueue 40 (\<lambda>k. True) False ?s = Some s'" and o: "outbox s' = fragments ?cs"
    using em ob by auto
  have "length (fragments ?cs) = 1000" using n by (simp add: fragments_def)
  with f o len show ?thesis
    by (simp add: DISCORD_HARD_LIMIT_def)
qed

lemma chunks_of_1991:
  "chunks_of MAX_CONTENT (replicate 1991 x) = [replicate 1990 x, [x]]"
proof -
  have "chunks_of 1990 (replicate 1991 x) = replicate 1990 x # chunks_of 1990 (replicate 1 x)"
    by (subst chunks_of_step) simp_all
  also have "chunks_of 1990 (replicate 1 x) = [[x]]"
    by (subst chunks_of_step) simp_all
  finally show ?thesis by (simp add: MAX_CONTENT_val)
qed

lemma suffix_1_2: "chunk_suffix 0 (Suc (Suc 0)) = ascii '' [1/2]''"
  by (simp add: chunk_suffix_def decimal.simps ascii_def)

lemma suffix_2_2: "chunk_suffix (Suc 0) (Suc (Suc 0)) = ascii '' [2/2]''"
  by (simp add: chunk_suffix_def decimal.simps ascii_def)

text \<open>
  The run behind C7: the channel is set and the queue is not empty, so the flush takes
  the draining branch, and the content of its message number 100 is above 2000.
\<close>

theorem hard_limit_exceeded_witness:
  "channel (enqueue (replicate 1988011 0x61) ready)
   \<and> queue (enqueue (replicate 1988011 0x61) ready) \<noteq> []
   \<and> (\<exists>s'. flushQueue 40 (\<lambda>k. True) False (enqueue (replicate 1988011 0x61) ready) = Some s'
          \<and> 2000 < length (content (outbox s' ! 99)))"
proof -
  have "channel (enqueue (replicate 1988011 0x61) ready)"
    and "queue (enqueue (replicate 1988011 0x61) ready) \<noteq> []"
    by (simp_all add: enqueue_def startFlushTimer_def ready_def)
  moreover from hard_limit_exceeded
  have "\<exists>s'. flushQueue 40 (\<lambda>k. True) False (enqueue (replicate 1988011 0x61) ready) = Some s'
          \<and> 2000 < length (content (outbox s' ! 99))"
    by (auto simp add: DISCORD_HARD_LIMIT_def)
  ultimately show ?thesis by blast
qed

text \<open>
  C3 at a line of 1991 letters \<open>a\<close>, alone in the queue.
\<close>

theorem oversized_line_chunked_witness:
  "MAX_CONTENT < length (replicate 1991 (0x61 :: 16 word)) \<and> channel ready
   \<and> splitToChunks (replicate 1991 (0x61 :: 16 word)) MAX_CONTENT = Some [replicate 1990 0x61, [0x61]]
   \<and> emits 40 (\<lambda>k. True) True (ready\<lparr>queue := [] @ replicate 1991 0x61 # []\<rparr>)
       = Some [Fragment (replicate 1990 0x61) (ascii '' [1/2]''), Fragment [0x61] (ascii '' [2/2]'')]"
proof -
  let ?l = "replicate 1991 (0x61 :: 16 word)"
  have h1: "MAX_CONTENT < length ?l" by (simp add: MAX_CONTENT_val)
  have h2: "channel ready" by (simp add: ready_def)
  from oversized_line_chunked [OF h1 h2, of 40 "\<lambda>k. True" True "[]" "[]"] obtain cs a b where
    cs: "splitToChunks ?l MAX_CONTENT = Some cs" and
    a: "emits 40 (\<lambda>k. True) True (ready\<lparr>queue := []\<rparr>) = Some a" and
    b: "emits 40 (\<lambda>k. True) True (ready\<lparr>queue := []\<rparr>) = Some b" and
    e: "emits 40 (\<lambda>k. True) True (ready\<lparr>queue := [] @ ?l # []\<rparr>)
         = Some (a @ map (\<lambda>i. Fragment (cs ! i) (chunk_suffix i (length cs))) [0..<length cs] @ b)"
    by blast
  from cs have cs': "cs = [replicate 1990 0x61, [0x61]]"
    by (simp add: splitToChunks_chunks MAX_CONTENT_pos chunks_of_1991)
  from a have a': "a = []" by (simp add: emits_def flushQueue_def)
  from b have b': "b = []" by (simp add: emits_def flushQueue_def)
  have "[0..<length cs] = [0, 1]" by (simp add: cs' upt_rec)
  with e have "emits 40 (\<lambda>k. True) True (ready\<lparr>queue := [] @ ?l # []\<rparr>)
       = Some [Fragment (replicate 1990 0x61) (ascii '' [1/2]''), Fragment [0x61] (ascii '' [2/2]'')]"
    by (simp add: a' b' cs' suffix_1_2 suffix_2_2)
  with h1 h2 cs cs' show ?thesis by simp
qed

lemma emits_full:
  "emits 40 (\<lambda>k. True) True (ready\<lparr>queue := [ascii ''a''] @ replicate 1990 0x61 # [ascii ''b'']\<rparr>)
     = Some [Batch [ascii ''a''], Batch [replicate 1990 0x61], Batch [ascii ''b'']]"
  by (simp add: emits_eq ready_def MAX_CONTENT_val ascii_def)

text \<open>
  C10 at a line of 1990 letters \<open>a\<close> between the lines \<open>"a"\<close> and \<open>"b"\<close>.
\<close>

theorem full_line_alone_witness:
  "length (replicate 1990 (0x61 :: 16 word)) = MAX_CONTENT \<and> channel ready
   \<and> emits 40 (\<lambda>k. True) True (ready\<lparr>queue := [ascii ''a'']\<rparr>) = Some [Batch [ascii ''a'']]
   \<and> emits 40 (\<lambda>k. True) True (ready\<lparr>queue := [ascii ''a''] @ replicate 1990 0x61 # [ascii ''b'']\<rparr>)
       = Some ([Batch [ascii ''a'']] @ Batch [replicate 1990 0x61] # [Batch [ascii ''b'']])
   \<and> concat (map text_of [Batch [ascii ''b'']]) = concat [ascii ''b'']"
proof -
  let ?l = "replicate 1990 (0x61 :: 16 word)"
  have h1: "length ?l = MAX_CONTENT" by (simp add: MAX_CONTENT_val)
  have h2: "channel ready" by (simp add: ready_def)
  from full_line_alone [OF h1 h2, of 40 "\<lambda>k. True" True "[ascii ''a'']" "[ascii ''b'']"]
  obtain a rest where
    a: "emits 40 (\<lambda>k. True) True (ready\<lparr>queue := [ascii ''a'']\<rparr>) = Some a" and
    e: "emits 40 (\<lambda>k. True) True (ready\<lparr>queue := [ascii ''a''] @ ?l # [ascii ''b'']\<rparr>)
          = Some (a @ Batch [?l] # rest)" and
    t: "concat (map text_of rest) = concat [ascii ''b'']"
    by blast
  from e have "a @ Batch [?l] # rest = [Batch [ascii ''a''], Batch [?l], Batch [ascii ''b'']]"
    by (simp only: emits_full option.inject)
  moreover have "emits 40 (\<lambda>k. True) True (ready\<lparr>queue := [ascii ''a'']\<rparr>) = Some [Batch [ascii ''a'']]"
    by (simp add: emits_eq ready_def MAX_CONTENT_val ascii_def)
  with a have "a = [Batch [ascii ''a'']]" by simp
  ultimately have "rest = [Batch [ascii ''b'']]" by simp
  with a e t \<open>a = [Batch [ascii ''a'']]\<close> h1 h2 show ?thesis by simp
qed

section \<open>Proofs: overlapping calls of flushQueue\<close>

lemma finish_None [simp]: "finish mx ok (None, s) = Some s"
  by (subst finish.simps) simp

lemma finish_Some: "finish mx ok (Some c, s) = Option.bind (resume_call mx ok c s) (finish mx ok)"
  by (subst finish.simps) simp

lemma finish_final [simp]:
  "finish mx ok (Some \<lparr>c_force = frc, c_current = cur, c_currentLen = len, c_cont = AfterFinal\<rparr>, s)
     = Some (stopFlushTimer frc s)"
  by (subst finish_Some) (simp add: resume_call_def)

lemma finish_overflow:
  "finish mx ok (Some \<lparr>c_force = frc, c_current = cur, c_currentLen = len, c_cont = AfterOverflow raw addLen\<rparr>, s)
     = Option.bind (run_loop mx ok frc [raw] addLen s) (finish mx ok)"
  by (subst finish_Some) (simp add: resume_call_def)

lemma finish_preflush:
  "0 < length chunks \<Longrightarrow>
   finish mx ok (Some \<lparr>c_force = frc, c_current = cur, c_currentLen = len, c_cont = AfterPreflush chunks\<rparr>, s)
     = finish mx ok (Some \<lparr>c_force = frc, c_current = [], c_currentLen = 0, c_cont = AfterChunk chunks 0\<rparr>,
         sendPacked ok (Fragment (chunks ! 0) (chunk_suffix 0 (length chunks))) s)"
  by (subst finish_Some) (simp add: resume_call_def)

lemma finish_chunk_next:
  "Suc i < length chunks \<Longrightarrow>
   finish mx ok (Some \<lparr>c_force = frc, c_current = cur, c_currentLen = len, c_cont = AfterChunk chunks i\<rparr>, s)
     = finish mx ok (Some \<lparr>c_force = frc, c_current = cur, c_currentLen = len, c_cont = AfterChunk chunks (Suc i)\<rparr>,
         sendPacked ok (Fragment (chunks ! Suc i) (chunk_suffix (Suc i) (length chunks))) s)"
  by (subst finish_Some) (simp add: resume_call_def)

lemma finish_chunk_last:
  "\<not> Suc i < length chunks \<Longrightarrow>
   finish mx ok (Some \<lparr>c_force = frc, c_current = cur, c_currentLen = len, c_cont = AfterChunk chunks i\<rparr>, s)
     = Option.bind (run_loop mx ok frc cur len s) (finish mx ok)"
  by (subst finish_Some) (simp add: resume_call_def)

lemma finish_chunks:
  "i < length chunks \<Longrightarrow>
   finish mx ok (Some \<lparr>c_force = frc, c_current = cur, c_currentLen = len, c_cont = AfterChunk chunks i\<rparr>, s)
     = Option.bind
         (run_loop mx ok frc cur len
            (fold (\<lambda>j. sendPacked ok (Fragment (chunks ! j) (chunk_suffix j (length chunks))))
               [Suc i..<length chunks] s))
         (finish mx ok)"
proof (induction "length chunks - i" arbitrary: i s)
  case 0
  then show ?case by simp
next
  case (Suc n)
  show ?case
  proof (cases "Suc i < length chunks")
    case True
    have "finish mx ok (Some \<lparr>c_force = frc, c_current = cur, c_currentLen = len, c_cont = AfterChunk chunks i\<rparr>, s)
      = finish mx ok (Some \<lparr>c_force = frc, c_current = cur, c_currentLen = len, c_cont = AfterChunk chunks (Suc i)\<rparr>,
           sendPacked ok (Fragment (chunks ! Suc i) (chunk_suffix (Suc i) (length chunks))) s)"
      using True by (rule finish_chunk_next)
    also have "\<dots> = Option.bind
         (run_loop mx ok frc cur len
            (fold (\<lambda>j. sendPacked ok (Fragment (chunks ! j) (chunk_suffix j (length chunks))))
               [Suc (Suc i)..<length chunks]
               (sendPacked ok (Fragment (chunks ! Suc i) (chunk_suffix (Suc i) (length chunks))) s)))
         (finish mx ok)"
      using Suc.hyps(2) True by (intro Suc.hyps(1)) auto
    finally show ?thesis
      using True by (simp add: upt_rec [of "Suc i"])
  next
    case False
    with Suc.prems have "[Suc i..<length chunks] = []" by simp
    with False show ?thesis
      by (simp add: finish_chunk_last)
  qed
qed

lemma sendPacked_queue [simp]: "queue (sendPacked ok m s) = queue s"
  by (simp add: sendPacked_def)

lemma sendChunks_queue [simp]: "queue (sendChunks ok chunks s) = queue s"
  using grows_sendChunks [of ok s chunks] by (simp add: grows_def)

lemma sendChunks_unfold:
  "0 < length chunks \<Longrightarrow>
   sendChunks ok chunks s
     = fold (\<lambda>j. sendPacked ok (Fragment (chunks ! j) (chunk_suffix j (length chunks))))
         [Suc 0..<length chunks]
         (sendPacked ok (Fragment (chunks ! 0) (chunk_suffix 0 (length chunks))) s)"
  by (simp add: sendChunks_def upt_rec [of 0])

lemma finish_run_loop:
  "queue s = q \<Longrightarrow>
   Option.bind (run_loop mx ok frc cur len s) (finish mx ok)
     = (case drain mx ok q (cur, len, s) of
          None \<Rightarrow> None
        | Some st \<Rightarrow> (case flushCurrent ok st of (c, l, s1) \<Rightarrow> Some (stopFlushTimer frc s1)))"
proof (induction q arbitrary: cur len s)
  case Nil
  then show ?case
    by (subst run_loop.simps) (simp add: flushCurrent_def)
next
  case (Cons raw q)
  let ?s1 = "s\<lparr>queue := q\<rparr>"
  have q1: "queue ?s1 = q" by simp
  show ?case
  proof (cases "length raw > MAX_CONTENT")
    case True
    let ?chunks = "chunks_of MAX_CONTENT raw"
    have sp: "splitToChunks raw MAX_CONTENT = Some ?chunks"
      by (simp add: splitToChunks_chunks MAX_CONTENT_pos)
    have ne: "0 < length ?chunks"
      using True chunks_of_eq_Nil [OF MAX_CONTENT_pos, of raw] by (cases "?chunks") auto
    show ?thesis
    proof (cases "cur = []")
      case e: True
      have "Option.bind (run_loop mx ok frc cur len s) (finish mx ok)
          = Option.bind (run_loop mx ok frc cur len (sendChunks ok ?chunks ?s1)) (finish mx ok)"
        using True e ne Cons.prems
        by (subst run_loop.simps) (simp add: sp finish_chunks sendChunks_unfold)
      also have "\<dots> = (case drain mx ok q (cur, len, sendChunks ok ?chunks ?s1) of
          None \<Rightarrow> None
        | Some st \<Rightarrow> (case flushCurrent ok st of (c, l, s1) \<Rightarrow> Some (stopFlushTimer frc s1)))"
        by (rule Cons.IH) simp
      finally show ?thesis
        using True e by (simp add: sp)
    next
      case n: False
      let ?s2 = "sendPacked ok (Batch cur) ?s1"
      have "Option.bind (run_loop mx ok frc cur len s) (finish mx ok)
          = Option.bind (run_loop mx ok frc [] 0 (sendChunks ok ?chunks ?s2)) (finish mx ok)"
        using True n ne Cons.prems
        by (subst run_loop.simps)
           (simp add: sp finish_preflush finish_chunks sendChunks_unfold)
      also have "\<dots> = (case drain mx ok q ([], 0, sendChunks ok ?chunks ?s2) of
          None \<Rightarrow> None
        | Some st \<Rightarrow> (case flushCurrent ok st of (c, l, s1) \<Rightarrow> Some (stopFlushTimer frc s1)))"
        by (rule Cons.IH) simp
      finally show ?thesis
        using True n by (simp add: sp flushCurrent_def)
    qed
  next
    case False
    let ?addLen = "(if cur = [] then 0 else 1) + length raw"
    show ?thesis
    proof (cases "len + ?addLen > MAX_CONTENT \<or> real (length cur + 1) > mx")
      case ov: True
      show ?thesis
      proof (cases "cur = []")
        case e: True
        have "Option.bind (run_loop mx ok frc cur len s) (finish mx ok)
            = Option.bind (run_loop mx ok frc [raw] ?addLen ?s1) (finish mx ok)"
          using False ov e Cons.prems
          by (subst run_loop.simps) (simp add: Let_def)
        also have "\<dots> = (case drain mx ok q ([raw], ?addLen, ?s1) of
            None \<Rightarrow> None
          | Some st \<Rightarrow> (case flushCurrent ok st of (c, l, s1) \<Rightarrow> Some (stopFlushTimer frc s1)))"
          by (rule Cons.IH) simp
        finally show ?thesis
          using False ov e by (simp add: flushCurrent_def Let_def)
      next
        case n: False
        let ?s2 = "sendPacked ok (Batch cur) ?s1"
        have "Option.bind (run_loop mx ok frc cur len s) (finish mx ok)
            = Option.bind (run_loop mx ok frc [raw] ?addLen ?s2) (finish mx ok)"
          using False ov n Cons.prems
          by (subst run_loop.simps) (simp add: Let_def finish_overflow)
        also have "\<dots> = (case drain mx ok q ([raw], ?addLen, ?s2) of
            None \<Rightarrow> None
          | Some st \<Rightarrow> (case flushCurrent ok st of (c, l, s1) \<Rightarrow> Some (stopFlushTimer frc s1)))"
          by (rule Cons.IH) simp
        finally show ?thesis
          using False ov n by (simp add: flushCurrent_def Let_def)
      qed
    next
      case nov: False
      have "Option.bind (run_loop mx ok frc cur len s) (finish mx ok)
          = Option.bind (run_loop mx ok frc (cur @ [raw]) (len + ?addLen) ?s1) (finish mx ok)"
        using False nov Cons.prems
        by (subst run_loop.simps) (simp add: Let_def)
      also have "\<dots> = (case drain mx ok q (cur @ [raw], len + ?addLen, ?s1) of
          None \<Rightarrow> None
        | Some st \<Rightarrow> (case flushCurrent ok st of (c, l, s1) \<Rightarrow> Some (stopFlushTimer frc s1)))"
        by (rule Cons.IH) simp
      finally show ?thesis
        using False nov by (simp add: Let_def)
    qed
  qed
qed

text \<open>
  A call of \<open>flushQueue\<close> that is carried to its end with nothing in between does what
  the function \<open>flushQueue\<close> of the sections above computes.
\<close>

theorem unoverlapped_flush:
  "channel s \<Longrightarrow> queue s \<noteq> [] \<Longrightarrow>
   Option.bind (run_loop mx ok frc [] 0 s) (finish mx ok) = flushQueue mx ok frc s"
  by (simp add: finish_run_loop flushQueue_def)

lemma sanitize_a: "sanitizeLine (replicate n 0x61) = replicate n 0x61"
  by (rule sanitizeLine_plain) (simp_all add: AT_def BACKTICK_def)
lemma sanitize_b: "sanitizeLine (replicate n 0x62) = replicate n 0x62"
  by (rule sanitizeLine_plain) (simp_all add: AT_def BACKTICK_def)
lemma sanitize_c: "sanitizeLine (replicate n 0x63) = replicate n 0x63"
  by (rule sanitizeLine_plain) (simp_all add: AT_def BACKTICK_def)

text \<open>
  Claim C1 fails on the code when two calls of \<open>flushQueue\<close> overlap; nothing keeps a
  second call from starting while the first awaits a send. The channel is set and no
  send fails. Three lines of 1000 letters (\<open>a\<close>, \<open>b\<close>, \<open>c\<close>), which sanitizing leaves
  as they are, are enqueued. The first call sends the first line and waits with the
  second line in hand, shifted off the queue; a second call starts (the next timer tick,
  or \<open>shutdown\<close> after the close handler), finds the third line in the queue and sends
  it; the first call goes on and sends the second line last. The lines are delivered in
  the order first, third, second, for either value of \<open>force\<close> in each call.
\<close>

theorem overlapping_flush_reorders:
  "map_option (\<lambda>(s, cs). (delivered s, queue s, cs))
     (run_async 40 (\<lambda>k. True)
        [Enq (replicate 1000 0x61), Enq (replicate 1000 0x62), Enq (replicate 1000 0x63),
         Tick f1, Tick f2, Done 0, Done 0, Done 0]
        (ready, []))
     = Some ([Batch [replicate 1000 0x61], Batch [replicate 1000 0x63], Batch [replicate 1000 0x62]],
             [], [])
   \<and> map sanitizeLine [replicate 1000 0x61, replicate 1000 0x62, replicate 1000 0x63]
       = [replicate 1000 0x61, replicate 1000 0x62, replicate 1000 0x63]
   \<and> concat (map text_of
         [Batch [replicate 1000 0x61], Batch [replicate 1000 0x63], Batch [replicate 1000 0x62]])
       \<noteq> concat (map sanitizeLine [replicate 1000 0x61, replicate 1000 0x62, replicate 1000 0x63])"
  by (simp add: step_async_def enqueue_def startFlushTimer_def ready_def sanitize_a sanitize_b
      sanitize_c run_loop.simps resume_call_def sendPacked_def stopFlushTimer_def MAX_CONTENT_val)

text \<open>
  The run behind C1 with both calls forced, as the close handler and \<open>shutdown\<close> make
  them: the channel is set, the queue starts empty, no send fails, every call ends and
  the queue is drained, and the delivered text has the third line before the second.
\<close>

theorem overlapping_flush_reorders_witness:
  "channel ready \<and> queue ready = [] \<and> (\<forall>k. (\<lambda>k. True) k)
   \<and> (\<exists>s. run_async 40 (\<lambda>k. True)
        [Enq (replicate 1000 0x61), Enq (replicate 1000 0x62), Enq (replicate 1000 0x63),
         Tick True, Tick True, Done 0, Done 0, Done 0]
        (ready, []) = Some (s, [])
        \<and> queue s = []
        \<and> concat (map text_of (delivered s))
            = replicate 1000 0x61 @ replicate 1000 0x63 @ replicate 1000 0x62)"
proof -
  have "channel ready" and "queue ready = []" by (simp_all add: ready_def)
  moreover from overlapping_flush_reorders [of True True]
  have "\<exists>s. run_async 40 (\<lambda>k. True)
        [Enq (replicate 1000 0x61), Enq (replicate 1000 0x62), Enq (replicate 1000 0x63),
         Tick True, Tick True, Done 0, Done 0, Done 0]
        (ready, []) = Some (s, [])
        \<and> queue s = []
        \<and> concat (map text_of (delivered s))
            = replicate 1000 0x61 @ replicate 1000 0x63 @ replicate 1000 0x62"
    by (auto simp add: map_option_case split: option.splits)
  ultimately show ?thesis by simp
qed

text \<open>
  A line enqueued while a forced call awaits its last send stays in the queue when that
  call ends, and the call stops the timer that would have flushed it.
\<close>

lemma enqueue_during_last_send:
  "map_option (\<lambda>(s, cs). (delivered s, queue s, flushTimer s, cs))
     (run_async 40 (\<lambda>k. True)
        [Enq (replicate 1000 0x61), Tick True, Enq (replicate 1000 0x62), Done 0]
        (ready, []))
     = Some ([Batch [replicate 1000 0x61]], [replicate 1000 0x62], False, [])"
  by (simp add: step_async_def enqueue_def startFlushTimer_def ready_def sanitize_a sanitize_b
      run_loop.simps resume_call_def sendPacked_def stopFlushTimer_def MAX_CONTENT_val)

section \<open>Proofs: the RconManager\<close>

lemma ensureConnected_acts:
  "ensureConnected en conn m = (r, m1, acts) \<Longrightarrow> Exec t c \<notin> set acts"
  by (auto simp add: ensureConnected_def split: if_splits sum.splits)

text \<open>
  Claim C8. When a call of \<open>send\<close> reaches the transport and the transport fails, the
  call returns that failure with \<open>connected\<close> false and \<open>rcon\<close> null, it has called the
  transport once and no more, and the next call of \<open>send\<close>, whatever the world answers,
  starts by connecting anew and runs its command on the transport that this connection
  gives.
\<close>

theorem send_failure_invalidates:
  assumes "rcon_send en conn exec cmd m = (r, m', acts)"
      and "Exec t cmd \<in> set acts"
      and "exec t cmd = Inl e"
  shows "r = Inl e \<and> connected m' = False \<and> rcon m' = None
         \<and> filter is_exec acts = [Exec t cmd]
         \<and> snd (snd (rcon_send en conn' exec' cmd' m'))
             = Connect # (case conn' of Inr t' \<Rightarrow> [Exec t' cmd'] | Inl e' \<Rightarrow> [])"
proof -
  obtain r1 m1 a1 where ec: "ensureConnected en conn m = (r1, m1, a1)"
    by (cases "ensureConnected en conn m") auto
  have noexec: "filter is_exec a1 = []" and en: "en"
    using ec assms by (auto simp add: ensureConnected_def rcon_send_def split: if_splits sum.splits)
  from assms ec ensureConnected_acts [OF ec] obtain t0 where
    r1: "r1 = Inr ()" and t0: "rcon m1 = Some t0"
    by (cases r1; cases "rcon m1") (auto simp add: rcon_send_def split: sum.splits)
  from assms ec r1 t0 ensureConnected_acts [OF ec] have tt: "t0 = t"
    by (auto simp add: rcon_send_def split: sum.splits)
  from assms ec r1 t0 tt have res: "r = Inl e" "m' = m1\<lparr>connected := False, rcon := None\<rparr>"
      "acts = a1 @ [Exec t cmd]"
    by (auto simp add: rcon_send_def)
  have "snd (snd (rcon_send en conn' exec' cmd' m'))
             = Connect # (case conn' of Inr t' \<Rightarrow> [Exec t' cmd'] | Inl e' \<Rightarrow> [])"
    using res(2) en
    by (cases conn'; cases "exec' (projr conn') cmd'") (auto simp add: rcon_send_def ensureConnected_def split: sum.splits)
  with res noexec show ?thesis by simp
qed

text \<open>
  C8 at a manager that is not connected, a connection that succeeds with transport 7, and
  a transport that fails every command with error 1.
\<close>

theorem send_failure_invalidates_witness:
  "rcon_send True (Inr 7) (\<lambda>t c. Inl (TransportError 1)) (ascii ''list'')
       \<lparr>rcon = None, connected = False, connecting = False\<rparr>
     = (Inl (TransportError 1), \<lparr>rcon = None, connected = False, connecting = False\<rparr>,
        [Connect, Exec 7 (ascii ''list'')])
   \<and> Exec 7 (ascii ''list'') \<in> set [Connect, Exec 7 (ascii ''list'')]
   \<and> filter is_exec [Connect, Exec 7 (ascii ''list'')] = [Exec 7 (ascii ''list'')]
   \<and> snd (snd (rcon_send True (Inr 8) (\<lambda>t c. Inr c) (ascii ''say hi'')
         \<lparr>rcon = None, connected = False, connecting = False\<rparr>))
       = [Connect, Exec 8 (ascii ''say hi'')]"
proof -
  let ?m = "\<lparr>rcon = None, connected = False, connecting = False\<rparr>"
  let ?ex = "\<lambda>(t::transport) (c::jsstring). (Inl (TransportError 1) :: error + jsstring)"
  let ?acts = "[Connect, Exec 7 (ascii ''list'')]"
  have a: "rcon_send True (Inr 7) ?ex (ascii ''list'') ?m = (Inl (TransportError 1), ?m, ?acts)"
    by (simp add: rcon_send_def ensureConnected_def)
  have b: "Exec 7 (ascii ''list'') \<in> set ?acts" by simp
  have c: "?ex 7 (ascii ''list'') = Inl (TransportError 1)" by simp
  from send_failure_invalidates [OF a b c, of "Inr 8" "\<lambda>t c. Inr c" "ascii ''say hi''"]
  have "filter is_exec ?acts = [Exec 7 (ascii ''list'')]"
    and "snd (snd (rcon_send True (Inr 8) (\<lambda>t c. Inr c) (ascii ''say hi'') ?m))
          = [Connect, Exec 8 (ascii ''say hi'')]"
    by simp_all
  with a b show ?thesis by blast
qed

section \<open>Proofs: shutdown\<close>

lemma inv_boot: "shutdown_inv (boot w)"
  by (simp add: shutdown_inv_def boot_def)

lemma inv_shutdown: "shutdown_inv s \<Longrightarrow> \<not> exited s \<Longrightarrow> shutdown_inv (shutdown s)"
proof (cases "shuttingDown s")
  case True
  assume "shutdown_inv s"
  with True show ?thesis by (simp add: shutdown_def)
next
  case False
  assume "shutdown_inv s" "\<not> exited s"
  with False have "teardown s = []" "waiting s = []" by (auto simp add: shutdown_inv_def)
  with False show ?thesis
    by (simp add: shutdown_inv_def shutdown_def done_before_def)
qed

lemma resume_fresh:
  "pc \<le> 4 \<Longrightarrow> resume pc c w = (steps, nxt) \<Longrightarrow>
     distinct steps \<and> set steps \<inter> done_before pc = {}
     \<and> (case nxt of Some pc' \<Rightarrow> pc' \<le> 4 \<and> set steps \<union> done_before pc \<subseteq> done_before pc' | None \<Rightarrow> True)"
  by (auto simp add: resume_def done_before_def split: if_splits)

lemma inv_handle: "shutdown_inv s \<Longrightarrow> shutdown_inv (handle ev s)"
proof (cases "exited s")
  case True
  assume "shutdown_inv s"
  with True show ?thesis by (simp add: handle_def)
next
  case False
  assume inv: "shutdown_inv s"
  show ?thesis
  proof (cases ev)
    case Signal
    with False inv inv_shutdown show ?thesis by (simp add: handle_def)
  next
    case (Resume i c)
    show ?thesis
    proof (cases "i < length (waiting s)")
      case lt: True
      with inv False obtain pc where pc: "pc \<le> 4" "waiting s = [pc]" "set (teardown s) \<subseteq> done_before pc"
        and sd: "shuttingDown s" and dt: "distinct (teardown s)"
        by (auto simp add: shutdown_inv_def)
      from lt pc have i0: "i = 0" by simp
      obtain steps nxt where rs: "resume pc c (writable s) = (steps, nxt)"
        by (cases "resume pc c (writable s)") auto
      from resume_fresh [OF pc(1) rs] have fr: "distinct steps" "set steps \<inter> done_before pc = {}"
        "case nxt of Some pc' \<Rightarrow> pc' \<le> 4 \<and> set steps \<union> done_before pc \<subseteq> done_before pc' | None \<Rightarrow> True"
        by auto
      have d2: "distinct (teardown s @ steps)"
        using dt fr pc(3) by auto
      show ?thesis
      proof (cases nxt)
        case None
        with Resume False lt pc i0 rs d2 show ?thesis
          by (simp add: handle_def shutdown_inv_def)
      next
        case (Some pc')
        with fr have "pc' \<le> 4" "set steps \<union> done_before pc \<subseteq> done_before pc'" by auto
        with Some Resume False lt pc i0 rs d2 sd show ?thesis
          by (auto simp add: handle_def shutdown_inv_def)
      qed
    next
      case False
      with Resume inv show ?thesis by (simp add: handle_def)
    qed
  qed
qed

lemma inv_run: "shutdown_inv s \<Longrightarrow> shutdown_inv (fold handle evs s)"
  by (induction evs arbitrary: s) (simp_all add: inv_handle)

text \<open>
  Claim C9. A termination signal that arrives while \<open>shuttingDown\<close> is set changes
  nothing, and in every run of signals and resumptions from the start, no step of the
  teardown (announce, no-restart flag, polite stop, grace wait, forced kill, forced flush,
  rcon close, disconnect, exit) is done twice.
\<close>

theorem shutdown_once:
  "(shuttingDown s \<longrightarrow> handle Signal s = s) \<and> distinct (teardown (fold handle evs (boot w)))"
  using inv_run [OF inv_boot, of evs w]
  by (simp add: handle_def shutdown_def shutdown_inv_def)


text \<open>
  C9 at a run where a signal arrives at the start and again after each of the first two
  awaits.
\<close>

theorem shutdown_once_witness:
  "shuttingDown (handle Signal (boot True))
   \<and> handle Signal (handle Signal (boot True)) = handle Signal (boot True)
   \<and> teardown (fold handle [Signal, Resume 0 False, Signal, Resume 0 False, Signal] (boot True))
        = [Announce, WriteNoRestart, PoliteStop, GraceWait, ForceKill, ForceFlush]
   \<and> distinct (teardown (fold handle [Signal, Resume 0 False, Signal, Resume 0 False, Signal] (boot True)))"
  using shutdown_once [of "handle Signal (boot True)" "[Signal, Resume 0 False, Signal, Resume 0 False, Signal]" True]
  by (simp add: handle_def shutdown_def boot_def resume_def)

end
